theory Spec2Isabelle
  imports Complex_Main "HOL-Library.Multiset"
begin

section \<open>The training orchestrator of \<open>rl/dqn/dqn_train.py\<close>\<close>

text \<open>
  \<open>main\<close> wires components of an external library (collector, replay buffer, loss
  module, target-network updater, logger) and then runs one loop over the batches the
  collector yields. The model keeps the integer state of the loop
  (\<open>collected_frames\<close>, the loop index \<open>i\<close>) and records every call the loop makes on a
  collaborator as an event, in program order. Floating-point payloads (losses, times,
  q-values) are not part of the model: an event keeps the call and its integer
  arguments only.
\<close>

subsection \<open>Configuration\<close>

text \<open>
  The options of \<open>cfg\<close> that \<open>main\<close> reads. Python integers are \<open>int\<close>; the
  exploration bounds, the discount and the update-to-data ratio are exact rationals.
  \<open>logger_backend\<close> is the empty string when no backend is configured;
  \<open>max_grad_norm\<close> is \<open>None\<close> when the option is absent.
\<close>

record config =
  annealing_frames :: int
  eps_start :: rat
  eps_end :: rat
  frames_per_batch :: int
  total_frames :: int
  init_random_frames :: int
  buffer_size :: nat
  batch_size :: int
  nstep :: int
  gamma :: rat
  use_value_rescale :: bool
  hard_update_freq :: nat
  utd_ratio :: rat
  max_grad_norm :: "rat option"
  test_interval :: int
  logger_backend :: string

subsection \<open>Batches, events, errors\<close>

text \<open>
  What the loop reads of a batch \<open>data\<close>: \<open>data.numel()\<close> and the number of frames
  whose \<open>("next", "done")\<close> flag is set (\<open>len(episode_rewards)\<close>).
\<close>

record batch =
  numel :: nat
  n_done :: nat

datatype event =
    GreedyStep nat
  | Extend nat
  | Sample nat
  | LossForward nat
  | ZeroGrad
  | Backward
  | ClipGradNorm
  | OptimizerStep nat
  | TargetNetStep
  | UpdatePriority nat
  | SaveModel int
  | LogScalar string int
  | UpdatePolicyWeights
  | Shutdown

text \<open>
  The errors \<open>main\<close> can end with: Python's \<open>ZeroDivisionError\<close>; the
  \<open>RuntimeError\<close> that \<open>torch.zeros\<close> raises for a negative size
  (\<open>NegativeDimensionError\<close>); and an exception of \<open>logger.log_scalar\<close>, kept
  with the key and the step of the call.
\<close>

datatype error =
    ZeroDivisionError
  | NegativeDimensionError
  | LoggerError string int

record loop_state =
  collected_frames :: int
  n_samples :: nat
  n_logs :: nat
  trace :: "event list"

type_synonym outcome = "(error \<times> loop_state) + loop_state"

text \<open>
  The logging backend is a collaborator: \<open>ok c key step\<close> tells whether the call
  \<open>logger.log_scalar(key, value, step=step)\<close> returns normally when \<open>c\<close> calls
  were made before it; \<open>False\<close> is the call raising.
\<close>

type_synonym backend = "nat \<Rightarrow> string \<Rightarrow> int \<Rightarrow> bool"

definition init_state :: loop_state where
  "init_state = \<lparr>collected_frames = 0, n_samples = 0, n_logs = 0, trace = []\<rparr>"

definition emit :: "event list \<Rightarrow> loop_state \<Rightarrow> loop_state" where
  "emit es st = st\<lparr>trace := trace st @ es\<rparr>"

subsection \<open>Logging\<close>

text \<open>\<open>if logger:\<close> holds exactly when \<open>cfg.logger.backend\<close> is truthy.\<close>

definition has_logger :: "config \<Rightarrow> bool" where
  "has_logger cfg = (logger_backend cfg \<noteq> [])"

text \<open>
  \<open>for key, value in log_info.items(): logger.log_scalar(key, value, step=collected_frames)\<close>.
  There is no \<open>try\<close> around the call: when it raises, the exception leaves the loop.
\<close>

fun log_items :: "backend \<Rightarrow> string list \<Rightarrow> loop_state \<Rightarrow> outcome" where
  "log_items ok [] st = Inr st"
| "log_items ok (k # ks) st =
     (let st' = (emit [LogScalar k (collected_frames st)] st)\<lparr>n_logs := Suc (n_logs st)\<rparr>
      in if ok (n_logs st) k (collected_frames st)
         then log_items ok ks st'
         else Inl (LoggerError k (collected_frames st), st'))"

definition log_all :: "config \<Rightarrow> backend \<Rightarrow> string list \<Rightarrow> loop_state \<Rightarrow> outcome" where
  "log_all cfg ok log_info st = (if has_logger cfg then log_items ok log_info st else Inr st)"

subsection \<open>Optimization steps\<close>

text \<open>
  \<open>num_updates = math.ceil(frames_per_batch / batch_size * cfg.loss.utd_ratio)\<close>, a
  Python integer that can be negative. The division by \<open>batch_size\<close> raises when it
  is zero, and \<open>q_losses = torch.zeros(num_updates, device=device)\<close> raises when
  \<open>num_updates\<close> is negative; \<open>main\<close> checks both below, before the loop. Python
  rounds the quotient and the product to floats before \<open>ceil\<close>; the model computes
  them exactly, so the number of passes can differ from Python's where the rounding
  crosses an integer. The lemmas about \<open>opt_loop\<close> below hold for every number of
  passes.
\<close>

definition num_updates :: "config \<Rightarrow> int" where
  "num_updates cfg =
     \<lceil>of_int (frames_per_batch cfg) / of_int (batch_size cfg) * utd_ratio cfg\<rceil>"

definition clip_enabled :: "config \<Rightarrow> bool" where
  "clip_enabled cfg = (case max_grad_norm cfg of None \<Rightarrow> False | Some v \<Rightarrow> v \<noteq> 0)"

text \<open>
  One pass of the body of \<open>for j in range(num_updates)\<close>. The sampled batch is
  identified by the number of \<open>sample\<close> calls made before it.
\<close>

definition update_step :: "config \<Rightarrow> loop_state \<Rightarrow> loop_state" where
  "update_step cfg st =
     (let k = n_samples st
      in (emit ([Sample k, LossForward k, ZeroGrad, Backward]
                @ (if clip_enabled cfg then [ClipGradNorm] else [])
                @ [OptimizerStep k, TargetNetStep, UpdatePriority k]) st)
         \<lparr>n_samples := Suc k\<rparr>)"

fun opt_loop :: "config \<Rightarrow> nat \<Rightarrow> loop_state \<Rightarrow> loop_state" where
  "opt_loop cfg 0 st = st"
| "opt_loop cfg (Suc j) st = opt_loop cfg j (update_step cfg st)"

subsection \<open>One batch of the main loop\<close>

definition episode_keys :: "batch \<Rightarrow> string list" where
  "episode_keys b =
     (if 0 < n_done b
      then [''train/episode_reward'', ''train/episode_length'', ''train/episode_weed_ratio'']
      else [])"

definition train_keys :: "config \<Rightarrow> string list" where
  "train_keys cfg =
     [''train/q_loss'', ''train/epsilon'', ''train/sampling_time'', ''train/training_time'']
     @ (if use_value_rescale cfg then [''train/q_values'', ''train/q_logits'']
        else [''train/q_values''])"

text \<open>
  The checkpoint test of the loop body, for loop index \<open>i\<close> and the frame count
  \<open>cf\<close> after this batch. \<open>div\<close> on \<open>int\<close> rounds down, as Python's \<open>//\<close>.
  \<open>collector.total_frames\<close> is the \<open>cfg.collector.total_frames\<close> the collector was
  built with.
\<close>

definition ckpt_due :: "config \<Rightarrow> int \<Rightarrow> int \<Rightarrow> bool" where
  "ckpt_due cfg i cf =
     (let prev_test_frame = ((i - 1) * frames_per_batch cfg) div test_interval cfg;
          cur_test_frame = (i * frames_per_batch cfg) div test_interval cfg;
          final = (cf \<ge> total_frames cfg)
      in (i > 0 \<and> prev_test_frame < cur_test_frame) \<or> final)"

text \<open>
  The body of the loop for the batch \<open>b\<close> of index \<open>i\<close>. A batch that ends below
  \<open>init_random_frames\<close> logs its episode metrics and leaves the body at \<open>continue\<close>.
  Otherwise the body runs the \<open>num_updates\<close> optimization steps (the number is not
  negative once the loop is reached), computes the metrics (the division by
  \<open>frames_per_batch\<close> raises when it is zero), evaluates the checkpoint test (the
  division by \<open>test_interval\<close> raises when it is zero), saves the model when the test
  holds, logs, and refreshes the collector's policy weights.
\<close>

definition batch_step :: "config \<Rightarrow> backend \<Rightarrow> int \<Rightarrow> batch \<Rightarrow> loop_state \<Rightarrow> outcome" where
  "batch_step cfg ok i b st =
     (let cf = collected_frames st + int (numel b);
          st1 = (emit [GreedyStep (numel b), Extend (numel b)] st)\<lparr>collected_frames := cf\<rparr>
      in if cf < init_random_frames cfg
         then log_all cfg ok (episode_keys b) st1
         else
           let st2 = opt_loop cfg (nat (num_updates cfg)) st1
           in if frames_per_batch cfg = 0 then Inl (ZeroDivisionError, st2)
              else if test_interval cfg = 0 then Inl (ZeroDivisionError, st2)
              else
                let st3 = (if ckpt_due cfg i cf then emit [SaveModel cf] st2 else st2)
                in case log_all cfg ok (episode_keys b @ train_keys cfg) st3 of
                     Inl e \<Rightarrow> Inl e
                   | Inr st4 \<Rightarrow> Inr (emit [UpdatePolicyWeights] st4))"

subsection \<open>The loop and \<open>main\<close>\<close>

text \<open>\<open>for i, data in enumerate(collector)\<close>, over the batches the collector yields.\<close>

fun main_loop :: "config \<Rightarrow> backend \<Rightarrow> int \<Rightarrow> batch list \<Rightarrow> loop_state \<Rightarrow> outcome" where
  "main_loop cfg ok i [] st = Inr st"
| "main_loop cfg ok i (b # bs) st =
     (case batch_step cfg ok i b st of
        Inl e \<Rightarrow> Inl e
      | Inr st' \<Rightarrow> main_loop cfg ok (i + 1) bs st')"

text \<open>
  \<open>main\<close>, from the first statement that can raise in the model, the computation of
  \<open>num_updates\<close>, to \<open>collector.shutdown()\<close>. Before the loop, the division by a
  zero \<open>batch_size\<close> raises, and then \<open>torch.zeros(num_updates)\<close> raises for a
  negative \<open>num_updates\<close>; in both cases no batch is processed. \<open>batches\<close> is what
  the collector yields. The errors of the model are these two, the divisions by zero
  inside the loop and a raising \<open>log_scalar\<close>; failures inside the library calls
  themselves (storage, devices) are not modelled.
\<close>

definition main :: "config \<Rightarrow> backend \<Rightarrow> batch list \<Rightarrow> outcome" where
  "main cfg ok batches =
     (if batch_size cfg = 0 then Inl (ZeroDivisionError, init_state)
      else if num_updates cfg < 0 then Inl (NegativeDimensionError, init_state)
      else case main_loop cfg ok 0 batches init_state of
             Inl e \<Rightarrow> Inl e
           | Inr st \<Rightarrow> Inr (emit [Shutdown] st))"

text \<open>The state a run ends in, whether it returned or raised.\<close>

definition final_state :: "outcome \<Rightarrow> loop_state" where
  "final_state r = (case r of Inl (e, st) \<Rightarrow> st | Inr st \<Rightarrow> st)"

text \<open>The frame counts at which checkpoints were written, in order.\<close>

fun ckpt_frames :: "event list \<Rightarrow> int list" where
  "ckpt_frames [] = []"
| "ckpt_frames (SaveModel c # es) = c # ckpt_frames es"
| "ckpt_frames (e # es) = ckpt_frames es"

subsection \<open>The checkpoint schedule as a function of the batch sizes\<close>

text \<open>
  What the checkpoint test yields along a run that raises nothing, from the loop index
  \<open>i\<close>, the frame count \<open>cf\<close> before the batch and the sizes of the batches to come.
  A batch that ends below \<open>init_random_frames\<close> leaves the loop body at \<open>continue\<close>
  and never reaches the test.
\<close>

fun ckpt_schedule :: "config \<Rightarrow> int \<Rightarrow> int \<Rightarrow> nat list \<Rightarrow> int list" where
  "ckpt_schedule cfg i cf [] = []"
| "ckpt_schedule cfg i cf (n # ns) =
     (let cf' = cf + int n
      in (if init_random_frames cfg \<le> cf' \<and> ckpt_due cfg i cf' then [cf'] else [])
         @ ckpt_schedule cfg (i + 1) cf' ns)"

subsection \<open>Reading a trace\<close>

text \<open>
  The calls on the replay buffer that draw a batch or write its priorities back:
  \<open>replay_buffer.sample\<close> and \<open>replay_buffer.update_tensordict_priority\<close>.
\<close>

fun is_replay_call :: "event \<Rightarrow> bool" where
  "is_replay_call (Sample k) = True"
| "is_replay_call (UpdatePriority k) = True"
| "is_replay_call e = False"

text \<open>
  \<open>paired p es\<close>: along \<open>es\<close>, started with the sampled batch \<open>p\<close> waiting for its
  priorities (\<open>None\<close> when no batch is waiting), every \<open>sample\<close> happens while no
  batch is waiting, the next replay-buffer call after it is the priority update of that
  same batch, no \<open>extend\<close> falls between the two, and no batch is left waiting at the end.
\<close>

fun paired :: "nat option \<Rightarrow> event list \<Rightarrow> bool" where
  "paired p [] = (p = None)"
| "paired p (Sample k # es) = (p = None \<and> paired (Some k) es)"
| "paired p (UpdatePriority k # es) = (p = Some k \<and> paired None es)"
| "paired p (Extend n # es) = (p = None \<and> paired None es)"
| "paired p (e # es) = paired p es"

text \<open>The number of \<open>log_scalar\<close> calls in a trace.\<close>

fun count_logs :: "event list \<Rightarrow> nat" where
  "count_logs [] = 0"
| "count_logs (LogScalar k s # es) = Suc (count_logs es)"
| "count_logs (e # es) = count_logs es"

text \<open>
  \<open>all_logs_ok ok c es\<close>: every \<open>log_scalar\<close> call of \<open>es\<close> returned normally, \<open>c\<close>
  calls having been made before \<open>es\<close>.
\<close>

fun all_logs_ok :: "backend \<Rightarrow> nat \<Rightarrow> event list \<Rightarrow> bool" where
  "all_logs_ok ok c [] = True"
| "all_logs_ok ok c (LogScalar k s # es) = (ok c k s \<and> all_logs_ok ok (Suc c) es)"
| "all_logs_ok ok c (e # es) = all_logs_ok ok c es"

subsection \<open>Invariants of the loop about logging\<close>

text \<open>
  \<open>logs_sound\<close> holds of a state reached without an error: every \<open>log_scalar\<close> call
  so far returned normally, and \<open>n_logs\<close> counts them. \<open>stopped_at_log\<close> holds of
  an error and the state it left: the last call was a \<open>log_scalar\<close> that raised, after
  calls that all returned normally. \<open>run_sound\<close> holds of an outcome: a state
  reached by returning or by one of the other errors is sound, and a logger's error
  stopped the run at the call.
\<close>

definition logs_sound :: "backend \<Rightarrow> loop_state \<Rightarrow> bool" where
  "logs_sound ok st = (all_logs_ok ok 0 (trace st) \<and> n_logs st = count_logs (trace st))"

definition stopped_at_log :: "backend \<Rightarrow> error \<times> loop_state \<Rightarrow> bool" where
  "stopped_at_log ok x =
     (\<exists>k s tr. fst x = LoggerError k s \<and> trace (snd x) = tr @ [LogScalar k s] \<and>
        all_logs_ok ok 0 tr \<and> \<not> ok (count_logs tr) k s)"

definition run_sound :: "config \<Rightarrow> backend \<Rightarrow> outcome \<Rightarrow> bool" where
  "run_sound cfg ok r =
     (case r of Inr st \<Rightarrow> logs_sound ok st
      | Inl x \<Rightarrow>
          ((fst x = ZeroDivisionError \<or> fst x = NegativeDimensionError) \<and> logs_sound ok (snd x))
          \<or> (has_logger cfg \<and> stopped_at_log ok x))"

subsection \<open>The invariant of the loop about replay-buffer calls\<close>

definition replay_inv :: "loop_state \<Rightarrow> bool" where
  "replay_inv st =
     (paired None (trace st) \<and>
      filter is_replay_call (trace st) =
        concat (map (\<lambda>k. [Sample k, UpdatePriority k]) [0..<n_samples st]))"

section \<open>Online and target network\<close>

text \<open>
  The loss module holds two copies of the value network's parameters: the online
  parameters, which \<open>optimizer.step()\<close> changes, and the target parameters, which only
  \<open>target_net_updater.step()\<close> changes. \<open>'p\<close> is the type of a parameter set.
\<close>

record 'p nets =
  online :: 'p
  target :: 'p
  counter :: nat

text \<open>
  Modelled from the spec: the class \<open>HardUpdate\<close> comes from the library the repository
  builds on and is not among its files. Its \<open>step\<close> counts the calls and, every
  \<open>value_network_update_interval\<close> calls, copies the online parameters wholesale into
  the target parameters; between two copies it leaves the target parameters alone.
\<close>

definition hard_update_step :: "nat \<Rightarrow> 'p nets \<Rightarrow> 'p nets" where
  "hard_update_step interval s =
     (if Suc (counter s) = interval
      then s\<lparr>target := online s, counter := 0\<rparr>
      else s\<lparr>counter := Suc (counter s)\<rparr>)"

text \<open>
  The effect of one call of the loop on the two networks. \<open>opt p k\<close> is the online
  parameter set that \<open>optimizer.step()\<close> makes of \<open>p\<close> at the \<open>k\<close>-th step of a
  run (the gradients of the \<open>k\<close>-th sampled batch and the optimizer's own moments are
  fixed by \<open>k\<close> in a given run); no other call of the loop writes parameters.
\<close>

fun net_event :: "('p \<Rightarrow> nat \<Rightarrow> 'p) \<Rightarrow> nat \<Rightarrow> event \<Rightarrow> 'p nets \<Rightarrow> 'p nets" where
  "net_event opt interval (OptimizerStep k) s = s\<lparr>online := opt (online s) k\<rparr>"
| "net_event opt interval TargetNetStep s = hard_update_step interval s"
| "net_event opt interval e s = s"

text \<open>
  The loss module is built with \<open>delay_value=True\<close>: the target parameters start as a
  copy of the online parameters \<open>p0\<close>.
\<close>

definition nets_init :: "'p \<Rightarrow> 'p nets" where
  "nets_init p0 = \<lparr>online = p0, target = p0, counter = 0\<rparr>"

definition nets_after :: "('p \<Rightarrow> nat \<Rightarrow> 'p) \<Rightarrow> nat \<Rightarrow> 'p \<Rightarrow> event list \<Rightarrow> 'p nets" where
  "nets_after opt interval p0 tr = fold (net_event opt interval) tr (nets_init p0)"

text \<open>The number of \<open>optimizer.step()\<close> calls in a trace.\<close>

fun optimizer_steps :: "event list \<Rightarrow> nat" where
  "optimizer_steps [] = 0"
| "optimizer_steps (OptimizerStep k # es) = Suc (optimizer_steps es)"
| "optimizer_steps (e # es) = optimizer_steps es"

text \<open>
  \<open>target_ok opt interval s n es\<close>: along \<open>es\<close>, started in \<open>s\<close> after \<open>n\<close>
  optimizer steps, a call of \<open>target_net_updater.step()\<close> made when the number of
  optimizer steps is a multiple of \<open>interval\<close> leaves the target parameters equal to the
  online parameters, and every other call leaves the target parameters as they were.
\<close>

fun target_ok :: "('p \<Rightarrow> nat \<Rightarrow> 'p) \<Rightarrow> nat \<Rightarrow> 'p nets \<Rightarrow> nat \<Rightarrow> event list \<Rightarrow> bool" where
  "target_ok opt interval s n [] = True"
| "target_ok opt interval s n (e # es) =
     (let s' = net_event opt interval e s;
          n' = n + optimizer_steps [e]
      in (if e = TargetNetStep \<and> interval dvd n
          then target s' = online s'
          else target s' = target s)
         \<and> target_ok opt interval s' n' es)"

text \<open>The invariant of the loop about the two networks.\<close>

definition nets_inv :: "('p \<Rightarrow> nat \<Rightarrow> 'p) \<Rightarrow> nat \<Rightarrow> 'p \<Rightarrow> loop_state \<Rightarrow> bool" where
  "nets_inv opt interval p0 st =
     (target_ok opt interval (nets_init p0) 0 (trace st) \<and>
      optimizer_steps (trace st) = n_samples st \<and>
      counter (nets_after opt interval p0 (trace st)) = n_samples st mod interval)"

section \<open>The exploration schedule\<close>

text \<open>
  Modelled from the spec: the class \<open>EGreedyModule\<close> comes from the library the
  repository builds on and is not among its files. It owns a scalar epsilon that starts
  at \<open>eps_init\<close> and is annealed to \<open>eps_end\<close> over \<open>annealing_num_steps\<close> steps:
  one step lowers epsilon by \<open>(eps_init - eps_end) / annealing_num_steps\<close> and never
  below \<open>eps_end\<close>. \<open>main\<close> passes \<open>cfg.collector.eps_start\<close> as \<open>eps_init\<close> and
  \<open>cfg.collector.annealing_frames\<close> as \<open>annealing_num_steps\<close>. Epsilon is an exact
  rational here, not a float.
\<close>

definition anneal_step :: "config \<Rightarrow> rat \<Rightarrow> rat" where
  "anneal_step cfg e =
     max (eps_end cfg) (e - (eps_start cfg - eps_end cfg) / of_int (annealing_frames cfg))"

text \<open>\<open>greedy_module.step(frames)\<close>: one annealing step per frame.\<close>

fun greedy_step :: "config \<Rightarrow> nat \<Rightarrow> rat \<Rightarrow> rat" where
  "greedy_step cfg 0 e = e"
| "greedy_step cfg (Suc n) e = greedy_step cfg n (anneal_step cfg e)"

fun eps_event :: "config \<Rightarrow> event \<Rightarrow> rat \<Rightarrow> rat" where
  "eps_event cfg (GreedyStep n) e = greedy_step cfg n e"
| "eps_event cfg ev e = e"

text \<open>The module's epsilon after the calls of a trace.\<close>

definition eps_after :: "config \<Rightarrow> event list \<Rightarrow> rat" where
  "eps_after cfg tr = fold (eps_event cfg) tr (eps_start cfg)"

text \<open>The environment steps the module was stepped by along a trace.\<close>

fun env_steps :: "event list \<Rightarrow> nat" where
  "env_steps [] = 0"
| "env_steps (GreedyStep n # es) = n + env_steps es"
| "env_steps (e # es) = env_steps es"

text \<open>The invariant of the loop about the frame counter.\<close>

definition frames_inv :: "loop_state \<Rightarrow> bool" where
  "frames_inv st = (int (env_steps (trace st)) = collected_frames st)"

section \<open>The replay buffer\<close>

text \<open>
  A transition, as far as the n-step return reads it. \<open>'o\<close> is the type of
  observations and \<open>'a\<close> the type of actions; rewards are exact rationals.
\<close>

record ('o, 'a) transition =
  observation :: 'o
  action :: 'a
  next_observation :: 'o
  reward :: rat
  done_flag :: bool

subsection \<open>The n-step transform\<close>

text \<open>
  The transform \<open>main\<close> gives the replay buffer:
  \<open>MultiStepTransform(n_steps=cfg.loss.nstep, gamma=cfg.loss.gamma) if cfg.loss.nstep > 1
  else None\<close>, as the pair of its two arguments.
\<close>

definition replay_transform :: "config \<Rightarrow> (nat \<times> rat) option" where
  "replay_transform cfg = (if nstep cfg > 1 then Some (nat (nstep cfg), gamma cfg) else None)"

text \<open>
  Modelled from the spec: the class \<open>MultiStepTransform\<close> comes from the library the
  repository builds on and is not among its files. It folds a window of \<open>n\<close>
  consecutive transitions into one: the reward is the discounted sum of the window's
  rewards, the next observation is the one \<open>n\<close> steps ahead (the next observation of
  the window's last transition), and \<open>done_flag\<close> (the transition's \<open>done\<close>) holds if any transition of the window is
  terminal. A batch is folded window by window, one window starting at each transition
  that has \<open>n - 1\<close> successors in the batch.
\<close>

fun discounted_sum :: "rat \<Rightarrow> rat list \<Rightarrow> rat" where
  "discounted_sum g [] = 0"
| "discounted_sum g (r # rs) = r + g * discounted_sum g rs"

fun fold_window :: "rat \<Rightarrow> ('o, 'a) transition list \<Rightarrow> ('o, 'a) transition list" where
  "fold_window g [] = []"
| "fold_window g (t # ts) =
     [\<lparr>observation = observation t, action = action t,
       next_observation = next_observation (last (t # ts)),
       reward = discounted_sum g (map reward (t # ts)),
       done_flag = list_ex done_flag (t # ts)\<rparr>]"

fun n_step_fold :: "nat \<Rightarrow> rat \<Rightarrow> ('o, 'a) transition list \<Rightarrow> ('o, 'a) transition list" where
  "n_step_fold n g [] = []"
| "n_step_fold n g (t # ts) =
     (if n \<le> length (t # ts) then fold_window g (take n (t # ts)) else [])
     @ n_step_fold n g ts"

text \<open>What \<open>replay_buffer.extend(data)\<close> writes to the storage.\<close>

definition items_to_insert :: "config \<Rightarrow> ('o, 'a) transition list \<Rightarrow> ('o, 'a) transition list" where
  "items_to_insert cfg data =
     (case replay_transform cfg of
        None \<Rightarrow> data
      | Some (n, g) \<Rightarrow> n_step_fold n g data)"

subsection \<open>The storage\<close>

text \<open>
  Modelled from the spec: \<open>TensorDictPrioritizedReplayBuffer\<close> and
  \<open>LazyMemmapStorage\<close> come from the library the repository builds on and are not
  among its files. The storage is a circular store of fixed capacity \<open>max_size\<close>: it
  grows until it is full, and from then on each new item overwrites the oldest one.
  \<open>cursor\<close> is the slot the next item is written to. The capacity is positive.
\<close>

record 'a store =
  slots :: "'a list"
  cursor :: nat

definition empty_store :: "'a store" where
  "empty_store = \<lparr>slots = [], cursor = 0\<rparr>"

definition store_add :: "nat \<Rightarrow> 'a \<Rightarrow> 'a store \<Rightarrow> 'a store" where
  "store_add max_size x s =
     \<lparr>slots = (if cursor s < length (slots s) then (slots s)[cursor s := x] else slots s @ [x]),
      cursor = (cursor s + 1) mod max_size\<rparr>"

definition store_extend :: "nat \<Rightarrow> 'a list \<Rightarrow> 'a store \<Rightarrow> 'a store" where
  "store_extend max_size xs s = fold (store_add max_size) xs s"

text \<open>
  \<open>replay_buffer.extend(data)\<close> on the buffer \<open>main\<close> builds: the transform, then
  the storage of \<open>max_size = cfg.buffer.buffer_size\<close>.
\<close>

definition replay_extend :: "config \<Rightarrow> ('o, 'a) transition list \<Rightarrow> ('o, 'a) transition store
    \<Rightarrow> ('o, 'a) transition store" where
  "replay_extend cfg data s = store_extend (buffer_size cfg) (items_to_insert cfg data) s"

text \<open>The invariant of the storage after the items \<open>xs\<close> were written to an empty one.\<close>

definition store_inv :: "nat \<Rightarrow> 'a list \<Rightarrow> 'a store \<Rightarrow> bool" where
  "store_inv max_size xs s =
     (length (slots s) = min max_size (length xs) \<and>
      cursor s = length xs mod max_size \<and>
      (length xs \<le> max_size \<longrightarrow> slots s = xs) \<and>
      (max_size \<le> length xs \<longrightarrow> rotate (cursor s) (slots s) = drop (length xs - max_size) xs))"

section \<open>The encoder of \<open>torchrl_utils/model/conv_encoder.py\<close>\<close>

text \<open>
  A tensor is modelled by its shape, a list of dimensions; the claims about the encoder
  are about shapes. A call that PyTorch refuses is an error value.
\<close>

type_synonym shape = "nat list"

datatype torch_error = IndexError | RuntimeError

text \<open>
  The convolutional block \<open>_ConvNetBlock\<close> is imported from
  \<open>torchrl_utils.model.impala_net\<close>, which is not among the files. It is a parameter
  of the model: \<open>blk in_ch out_ch kernel_size stride\<close> maps the shape
  \<open>(channels, height, width)\<close> of one sample to the shape of the block's output for
  it, or to \<open>None\<close> when the block refuses the sample. As a convolutional module it
  works on a batch sample by sample. Constructing a block is taken not to raise.
\<close>

type_synonym block = "nat \<Rightarrow> nat \<Rightarrow> nat \<Rightarrow> nat \<Rightarrow> nat \<times> nat \<times> nat \<Rightarrow> (nat \<times> nat \<times> nat) option"

text \<open>The arguments of one \<open>_ConvNetBlock\<close>: input channels, output channels, kernel size, stride.\<close>

type_synonym layer = "nat \<times> nat \<times> nat \<times> nat"

record conv_encoder =
  layers :: "layer list"
  in_features :: nat
  out_features :: nat

text \<open>
  The loop \<open>for i in range(len(cnn_channels))\<close> of \<open>__init__\<close>: block \<open>i\<close> gets
  \<open>in_ch\<close>, \<open>cnn_channels[i]\<close>, \<open>kernel_sizes[i]\<close> and \<open>strides[i]\<close>, and
  \<open>in_ch\<close> becomes \<open>cnn_channels[i]\<close>. Indexing a list that is too short raises.
\<close>

fun build_layers :: "nat \<Rightarrow> nat list \<Rightarrow> nat list \<Rightarrow> nat list \<Rightarrow> torch_error + layer list" where
  "build_layers in_ch [] ks ss = Inr []"
| "build_layers in_ch (c # cs) (k # ks) (s # ss) =
     (case build_layers c cs ks ss of
        Inl e \<Rightarrow> Inl e
      | Inr ls \<Rightarrow> Inr ((in_ch, c, k, s) # ls))"
| "build_layers in_ch (c # cs) ks ss = Inl IndexError"

fun apply_blocks :: "block \<Rightarrow> layer list \<Rightarrow> nat \<times> nat \<times> nat \<Rightarrow> (nat \<times> nat \<times> nat) option" where
  "apply_blocks blk [] x = Some x"
| "apply_blocks blk ((i, c, k, s) # ls) x =
     (case blk i c k s x of None \<Rightarrow> None | Some y \<Rightarrow> apply_blocks blk ls y)"

text \<open>
  The blocks of \<open>self.cnn_encoder\<close> on a tensor of shape \<open>sh\<close>: a convolutional
  block takes a sample of three dimensions or a batch of four. Without blocks the
  tensor passes unchanged.
\<close>

definition blocks_forward :: "block \<Rightarrow> layer list \<Rightarrow> shape \<Rightarrow> torch_error + shape" where
  "blocks_forward blk ls sh =
     (if ls = [] then Inr sh
      else case sh of
        [c, h, w] \<Rightarrow>
          (case apply_blocks blk ls (c, h, w) of
             None \<Rightarrow> Inl RuntimeError
           | Some (c', h', w') \<Rightarrow> Inr [c', h', w'])
      | [n, c, h, w] \<Rightarrow>
          (case apply_blocks blk ls (c, h, w) of
             None \<Rightarrow> Inl RuntimeError
           | Some (c', h', w') \<Rightarrow> Inr [n, c', h', w'])
      | _ \<Rightarrow> Inl RuntimeError)"

text \<open>
  \<open>SquashDims()\<close>, that is \<open>value.flatten(-3, -1)\<close>: the last three dimensions
  become one; a tensor of fewer dimensions is refused.
\<close>

definition squash_dims :: "shape \<Rightarrow> torch_error + shape" where
  "squash_dims sh =
     (if length sh < 3 then Inl IndexError
      else Inr (take (length sh - 3) sh @ [prod_list (drop (length sh - 3) sh)]))"

text \<open>
  \<open>self.cnn_encoder\<close>: the blocks, an activation, which keeps the shape, and
  \<open>SquashDims()\<close>.
\<close>

definition cnn_encoder :: "block \<Rightarrow> layer list \<Rightarrow> shape \<Rightarrow> torch_error + shape" where
  "cnn_encoder blk ls sh =
     (case blocks_forward blk ls sh of
        Inl e \<Rightarrow> Inl e
      | Inr sh' \<Rightarrow> squash_dims sh')"

text \<open>
  \<open>__init__\<close>. The result is the encoder together with the shapes \<open>self.cnn_encoder\<close>
  was called on during construction. \<open>raster_shape[0]\<close> raises on an empty shape,
  \<open>cnn_output.size(1)\<close> on an output of fewer than two dimensions.
\<close>

definition dummy_inputs :: "shape \<Rightarrow> shape" where
  "dummy_inputs raster_shape =
     (if length raster_shape < 4 then 1 # raster_shape else raster_shape)"

definition conv_encoder_init ::
  "block \<Rightarrow> shape \<Rightarrow> nat list \<Rightarrow> nat list \<Rightarrow> nat list \<Rightarrow> nat \<Rightarrow> nat
     \<Rightarrow> torch_error + (conv_encoder \<times> shape list)" where
  "conv_encoder_init blk raster_shape cnn_channels kernel_sizes strides vec_dim vec_out =
     (case raster_shape of
        [] \<Rightarrow> Inl IndexError
      | in_ch # rest \<Rightarrow>
          (case build_layers in_ch cnn_channels kernel_sizes strides of
             Inl e \<Rightarrow> Inl e
           | Inr ls \<Rightarrow>
               (case cnn_encoder blk ls (dummy_inputs raster_shape) of
                  Inl e \<Rightarrow> Inl e
                | Inr cnn_output \<Rightarrow>
                    if length cnn_output < 2 then Inl IndexError
                    else Inr (\<lparr>layers = ls, in_features = vec_dim + cnn_output ! 1,
                                out_features = vec_out\<rparr>,
                              [dummy_inputs raster_shape]))))"

text \<open>
  \<open>torch.concatenate([embed, vector], dim=-1)\<close>: the two shapes agree in all but the
  last dimension; a tensor of shape \<open>(0,)\<close> is skipped.
\<close>

definition concatenate_last :: "shape \<Rightarrow> shape \<Rightarrow> torch_error + shape" where
  "concatenate_last a b =
     (if a = [0] then Inr b
      else if b = [0] then Inr a
      else if a \<noteq> [] \<and> length a = length b \<and> butlast a = butlast b
      then Inr (butlast a @ [last a + last b])
      else Inl RuntimeError)"

text \<open>
  \<open>self.post_encoder\<close>: \<open>nn.Linear(in_features, out_features)\<close>, which wants the last
  dimension of its input to be \<open>in_features\<close>, and an activation.
\<close>

definition post_encoder :: "conv_encoder \<Rightarrow> shape \<Rightarrow> torch_error + shape" where
  "post_encoder enc x =
     (if x \<noteq> [] \<and> last x = in_features enc then Inr (butlast x @ [out_features enc])
      else Inl RuntimeError)"

text \<open>
  \<open>forward(observation, vector=None)\<close>, on the shape \<open>obs\<close> of the observation
  and the shape of the vector, if one is given.
\<close>

definition forward :: "block \<Rightarrow> conv_encoder \<Rightarrow> shape \<Rightarrow> shape option \<Rightarrow> torch_error + shape" where
  "forward blk enc obs vector =
     (case cnn_encoder blk (layers enc) obs of
        Inl e \<Rightarrow> Inl e
      | Inr emb \<Rightarrow>
          (case vector of
             None \<Rightarrow> post_encoder enc emb
           | Some v \<Rightarrow>
               (case concatenate_last emb v of
                  Inl e \<Rightarrow> Inl e
                | Inr emb' \<Rightarrow> post_encoder enc emb')))"

section \<open>Concrete inputs\<close>

text \<open>
  A configuration: ten batches of 1000 frames, a warm-up of 2000 frames, two optimizer
  steps per batch, a hard update every four optimizer steps, and a configured logger.
\<close>

definition example_config :: config where
  "example_config =
     \<lparr>annealing_frames = 2000, eps_start = 1, eps_end = 1 / 20,
      frames_per_batch = 1000, total_frames = 10000, init_random_frames = 2000,
      buffer_size = 4000, batch_size = 500, nstep = 3, gamma = 1 / 2,
      use_value_rescale = True, hard_update_freq = 4, utd_ratio = 1,
      max_grad_norm = Some 10, test_interval = 2000, logger_backend = ''tensorboard''\<rparr>"

text \<open>A backend whose calls all return, and one whose fourth call raises.\<close>

definition quiet :: backend where
  "quiet c k s = True"

definition fourth_call_fails :: backend where
  "fourth_call_fails c k s = (c \<noteq> 3)"

text \<open>Runs of ten, two and three batches of 1000 frames.\<close>

definition ten_batches :: "batch list" where
  "ten_batches = replicate 10 \<lparr>numel = 1000, n_done = 1\<rparr>"

definition two_batches :: "batch list" where
  "two_batches = [\<lparr>numel = 1000, n_done = 1\<rparr>, \<lparr>numel = 1000, n_done = 0\<rparr>]"

definition three_batches :: "batch list" where
  "three_batches =
     [\<lparr>numel = 1000, n_done = 0\<rparr>, \<lparr>numel = 1000, n_done = 0\<rparr>,
      \<lparr>numel = 1000, n_done = 0\<rparr>]"

text \<open>An optimizer on parameter sets that are single numbers.\<close>

definition toy_opt :: "nat \<Rightarrow> nat \<Rightarrow> nat" where
  "toy_opt p k = 2 * p + k"

text \<open>
  Three consecutive transitions over the observations 0, 1, 2, 3 with the rewards 1, 2
  and 3, the last of them terminal.
\<close>

definition three_transitions :: "(nat, nat) transition list" where
  "three_transitions =
     [\<lparr>observation = 0, action = 7, next_observation = 1, reward = 1, done_flag = False\<rparr>,
      \<lparr>observation = 1, action = 8, next_observation = 2, reward = 2, done_flag = False\<rparr>,
      \<lparr>observation = 2, action = 9, next_observation = 3, reward = 3, done_flag = True\<rparr>]"

text \<open>
  A block for the concrete inputs: one convolution without padding, which wants the
  sample to have \<open>in_ch\<close> channels and to be at least as large as the kernel.
\<close>

definition plain_conv :: block where
  "plain_conv in_ch out_ch k s x =
     (case x of (c, h, w) \<Rightarrow>
        if c = in_ch \<and> 0 < s \<and> 0 < k \<and> k \<le> h \<and> k \<le> w
        then Some (out_ch, (h - k) div s + 1, (w - k) div s + 1)
        else None)"

section \<open>The example configuration\<close>

lemma example_fields:
  "frames_per_batch example_config = 1000" "total_frames example_config = 10000"
  "init_random_frames example_config = 2000" "test_interval example_config = 2000"
  "batch_size example_config = 500" "hard_update_freq example_config = 4"
  "has_logger example_config" "clip_enabled example_config"
  "use_value_rescale example_config" "\<not> num_updates example_config < 0" "0 \<le> num_updates example_config"
  "nat (num_updates example_config) = Suc (Suc 0)"
  "annealing_frames example_config = 2000" "eps_start example_config = 1"
  "eps_end example_config = 1 / 20"
  by (simp_all add: example_config_def has_logger_def clip_enabled_def num_updates_def)

section \<open>Invariants of the loop\<close>

text \<open>
  A property of loop states that holds initially and is kept by each action of the loop
  holds of the state any run ends in, whether \<open>main\<close> returned or raised.
\<close>

lemma log_items_invariant:
  assumes lg: "\<And>st k. P st \<Longrightarrow>
        P ((emit [LogScalar k (collected_frames st)] st)\<lparr>n_logs := Suc (n_logs st)\<rparr>)"
  shows "P st \<Longrightarrow> P (final_state (log_items ok ks st))"
proof (induction ks arbitrary: st)
  case Nil
  then show ?case by (simp add: final_state_def)
next
  case (Cons k ks)
  let ?st' = "(emit [LogScalar k (collected_frames st)] st)\<lparr>n_logs := Suc (n_logs st)\<rparr>"
  have "P ?st'" using Cons.prems by (rule lg)
  with Cons.IH [of ?st'] show ?case
    by (simp add: Let_def final_state_def)
qed

lemma log_all_invariant:
  assumes lg: "\<And>st k. P st \<Longrightarrow>
        P ((emit [LogScalar k (collected_frames st)] st)\<lparr>n_logs := Suc (n_logs st)\<rparr>)"
    and "P st"
  shows "P (final_state (log_all cfg ok ks st))"
  using log_items_invariant [where P = P, OF lg, of st ok ks] assms(2)
  by (simp add: log_all_def final_state_def)

lemma opt_loop_invariant:
  assumes up: "\<And>st. P st \<Longrightarrow> P (update_step cfg st)"
  shows "P st \<Longrightarrow> P (opt_loop cfg n st)"
  by (induction n arbitrary: st) (simp_all add: up)

lemma batch_step_invariant:
  assumes gr: "\<And>st n. P st \<Longrightarrow>
        P ((emit [GreedyStep n, Extend n] st)\<lparr>collected_frames := collected_frames st + int n\<rparr>)"
    and lg: "\<And>st k. P st \<Longrightarrow>
        P ((emit [LogScalar k (collected_frames st)] st)\<lparr>n_logs := Suc (n_logs st)\<rparr>)"
    and up: "\<And>st. P st \<Longrightarrow> P (update_step cfg st)"
    and sv: "\<And>st c. P st \<Longrightarrow> P (emit [SaveModel c] st)"
    and pw: "\<And>st. P st \<Longrightarrow> P (emit [UpdatePolicyWeights] st)"
    and st: "P st"
  shows "P (final_state (batch_step cfg ok i b st))"
proof -
  let ?cf = "collected_frames st + int (numel b)"
  let ?st1 = "(emit [GreedyStep (numel b), Extend (numel b)] st)\<lparr>collected_frames := ?cf\<rparr>"
  have s1: "P ?st1" using st by (rule gr)
  show ?thesis
  proof (cases "?cf < init_random_frames cfg")
    case True
    with log_all_invariant [where P = P, OF lg s1, of cfg ok "episode_keys b"] show ?thesis
      by (simp add: batch_step_def Let_def)
  next
    case False
    let ?st2 = "opt_loop cfg (nat (num_updates cfg)) ?st1"
    let ?st3 = "if ckpt_due cfg i ?cf then emit [SaveModel ?cf] ?st2 else ?st2"
    have s2: "P ?st2" using up s1 by (rule opt_loop_invariant [where P = P])
    then have s3: "P ?st3" by (simp add: sv)
    let ?r = "log_all cfg ok (episode_keys b @ train_keys cfg) ?st3"
    have bs: "batch_step cfg ok i b st =
        (if frames_per_batch cfg = 0 then Inl (ZeroDivisionError, ?st2)
         else if test_interval cfg = 0 then Inl (ZeroDivisionError, ?st2)
         else case ?r of Inl e \<Rightarrow> Inl e | Inr st4 \<Rightarrow> Inr (emit [UpdatePolicyWeights] st4))"
      using False by (simp add: batch_step_def Let_def)
    have r: "P (final_state ?r)"
      by (rule log_all_invariant [where P = P, OF lg s3])
    show ?thesis
    proof (cases ?r)
      case (Inl e)
      with r s2 show ?thesis unfolding bs by (simp add: final_state_def)
    next
      case (Inr st4)
      with r have "P st4" by (simp add: final_state_def)
      then have "P (emit [UpdatePolicyWeights] st4)" by (rule pw)
      with Inr s2 show ?thesis unfolding bs by (simp add: final_state_def)
    qed
  qed
qed

lemma main_loop_invariant:
  assumes gr: "\<And>st n. P st \<Longrightarrow>
        P ((emit [GreedyStep n, Extend n] st)\<lparr>collected_frames := collected_frames st + int n\<rparr>)"
    and lg: "\<And>st k. P st \<Longrightarrow>
        P ((emit [LogScalar k (collected_frames st)] st)\<lparr>n_logs := Suc (n_logs st)\<rparr>)"
    and up: "\<And>st. P st \<Longrightarrow> P (update_step cfg st)"
    and sv: "\<And>st c. P st \<Longrightarrow> P (emit [SaveModel c] st)"
    and pw: "\<And>st. P st \<Longrightarrow> P (emit [UpdatePolicyWeights] st)"
  shows "P st \<Longrightarrow> P (final_state (main_loop cfg ok i bs st))"
proof (induction bs arbitrary: i st)
  case Nil
  then show ?case by (simp add: final_state_def)
next
  case (Cons b bs)
  have b: "P (final_state (batch_step cfg ok i b st))"
    by (rule batch_step_invariant [where P = P, OF gr lg up sv pw Cons.prems])
  show ?case
  proof (cases "batch_step cfg ok i b st")
    case (Inl e)
    with b show ?thesis by (simp add: final_state_def)
  next
    case (Inr st')
    with b have "P st'" by (simp add: final_state_def)
    from Cons.IH [OF this] Inr show ?thesis by simp
  qed
qed

lemma main_invariant:
  assumes init: "P init_state"
    and gr: "\<And>st n. P st \<Longrightarrow>
        P ((emit [GreedyStep n, Extend n] st)\<lparr>collected_frames := collected_frames st + int n\<rparr>)"
    and lg: "\<And>st k. P st \<Longrightarrow>
        P ((emit [LogScalar k (collected_frames st)] st)\<lparr>n_logs := Suc (n_logs st)\<rparr>)"
    and up: "\<And>st. P st \<Longrightarrow> P (update_step cfg st)"
    and sv: "\<And>st c. P st \<Longrightarrow> P (emit [SaveModel c] st)"
    and pw: "\<And>st. P st \<Longrightarrow> P (emit [UpdatePolicyWeights] st)"
    and sd: "\<And>st. P st \<Longrightarrow> P (emit [Shutdown] st)"
  shows "P (final_state (main cfg ok bs))"
proof -
  have l: "P (final_state (main_loop cfg ok 0 bs init_state))"
    by (rule main_loop_invariant [where P = P, OF gr lg up sv pw init])
  show ?thesis
  proof (cases "batch_size cfg = 0 \<or> num_updates cfg < 0")
    case True
    with init show ?thesis by (auto simp: main_def final_state_def)
  next
    case False
    show ?thesis
    proof (cases "main_loop cfg ok 0 bs init_state")
      case (Inl e)
      with l False show ?thesis by (simp add: main_def final_state_def)
    next
      case (Inr st)
      with l have "P st" by (simp add: final_state_def)
      then have "P (emit [Shutdown] st)" by (rule sd)
      with Inr False show ?thesis by (simp add: main_def final_state_def)
    qed
  qed
qed

section \<open>Checkpoints\<close>

lemma ckpt_frames_append: "ckpt_frames (xs @ ys) = ckpt_frames xs @ ckpt_frames ys"
  by (induction xs rule: ckpt_frames.induct) simp_all

lemma log_items_total:
  "\<forall>c k s. ok c k s \<Longrightarrow> \<exists>st'. log_items ok ks st = Inr st'"
  by (induction ks arbitrary: st) (simp_all add: Let_def)

lemma log_items_frames:
  "log_items ok ks st = Inr st' \<Longrightarrow>
     collected_frames st' = collected_frames st \<and>
     ckpt_frames (trace st') = ckpt_frames (trace st)"
proof (induction ks arbitrary: st)
  case Nil
  then show ?case by simp
next
  case (Cons k ks)
  then show ?case
    by (auto simp: Let_def emit_def ckpt_frames_append split: if_splits)
qed

lemma log_all_frames:
  assumes "has_logger cfg \<longrightarrow> (\<forall>c k s. ok c k s)"
  shows "\<exists>st'. log_all cfg ok ks st = Inr st' \<and>
     collected_frames st' = collected_frames st \<and>
     ckpt_frames (trace st') = ckpt_frames (trace st)"
proof (cases "has_logger cfg")
  case True
  with assms have "\<forall>c k s. ok c k s" by blast
  from log_items_total [OF this] obtain st' where "log_items ok ks st = Inr st'" by blast
  with log_items_frames [OF this] True show ?thesis by (simp add: log_all_def)
next
  case False
  then show ?thesis by (simp add: log_all_def)
qed

lemma update_step_frames:
  "collected_frames (update_step cfg st) = collected_frames st \<and>
   ckpt_frames (trace (update_step cfg st)) = ckpt_frames (trace st)"
  by (simp add: update_step_def Let_def emit_def ckpt_frames_append)

lemma opt_loop_frames:
  "collected_frames (opt_loop cfg n st) = collected_frames st \<and>
   ckpt_frames (trace (opt_loop cfg n st)) = ckpt_frames (trace st)"
  by (induction n arbitrary: st) (simp_all add: update_step_frames)

lemma batch_step_ckpt:
  assumes "has_logger cfg \<longrightarrow> (\<forall>c k s. ok c k s)"
    and "frames_per_batch cfg \<noteq> 0" and "test_interval cfg \<noteq> 0"
  shows "\<exists>st'. batch_step cfg ok i b st = Inr st' \<and>
     collected_frames st' = collected_frames st + int (numel b) \<and>
     ckpt_frames (trace st') = ckpt_frames (trace st) @
       (if init_random_frames cfg \<le> collected_frames st + int (numel b) \<and>
           ckpt_due cfg i (collected_frames st + int (numel b))
        then [collected_frames st + int (numel b)] else [])"
proof -
  let ?cf = "collected_frames st + int (numel b)"
  let ?st1 = "(emit [GreedyStep (numel b), Extend (numel b)] st)\<lparr>collected_frames := ?cf\<rparr>"
  have s1: "collected_frames ?st1 = ?cf" "ckpt_frames (trace ?st1) = ckpt_frames (trace st)"
    by (simp_all add: emit_def ckpt_frames_append)
  show ?thesis
  proof (cases "?cf < init_random_frames cfg")
    case True
    from log_all_frames [OF assms(1), of "episode_keys b" ?st1] s1 True
    show ?thesis by (auto simp: batch_step_def Let_def)
  next
    case False
    let ?st2 = "opt_loop cfg (nat (num_updates cfg)) ?st1"
    let ?st3 = "if ckpt_due cfg i ?cf then emit [SaveModel ?cf] ?st2 else ?st2"
    have s3: "collected_frames ?st3 = ?cf"
      "ckpt_frames (trace ?st3) = ckpt_frames (trace st) @ (if ckpt_due cfg i ?cf then [?cf] else [])"
      using s1 opt_loop_frames [of cfg "nat (num_updates cfg)" ?st1]
      by (simp_all add: emit_def ckpt_frames_append)
    from log_all_frames [OF assms(1), of "episode_keys b @ train_keys cfg" ?st3]
    obtain st4 where l: "log_all cfg ok (episode_keys b @ train_keys cfg) ?st3 = Inr st4"
      and c4: "collected_frames st4 = collected_frames ?st3"
      and k4: "ckpt_frames (trace st4) = ckpt_frames (trace ?st3)" by blast
    have "batch_step cfg ok i b st = Inr (emit [UpdatePolicyWeights] st4)"
      using False assms(2,3) l by (simp add: batch_step_def Let_def)
    moreover have "collected_frames (emit [UpdatePolicyWeights] st4) = ?cf"
      using c4 s3(1) by (simp add: emit_def)
    moreover have "ckpt_frames (trace (emit [UpdatePolicyWeights] st4)) =
        ckpt_frames (trace st) @ (if ckpt_due cfg i ?cf then [?cf] else [])"
      using k4 s3(2) by (simp add: emit_def ckpt_frames_append)
    ultimately show ?thesis using False by auto
  qed
qed

lemma main_loop_ckpt:
  assumes "has_logger cfg \<longrightarrow> (\<forall>c k s. ok c k s)"
    and "frames_per_batch cfg \<noteq> 0" and "test_interval cfg \<noteq> 0"
  shows "\<exists>st'. main_loop cfg ok i bs st = Inr st' \<and>
     ckpt_frames (trace st') =
       ckpt_frames (trace st) @ ckpt_schedule cfg i (collected_frames st) (map numel bs)"
proof (induction bs arbitrary: i st)
  case Nil
  then show ?case by simp
next
  case (Cons b bs)
  from batch_step_ckpt [OF assms, of i b st]
  obtain st1 where b: "batch_step cfg ok i b st = Inr st1"
    and c: "collected_frames st1 = collected_frames st + int (numel b)"
    and k: "ckpt_frames (trace st1) = ckpt_frames (trace st) @
       (if init_random_frames cfg \<le> collected_frames st + int (numel b) \<and>
           ckpt_due cfg i (collected_frames st + int (numel b))
        then [collected_frames st + int (numel b)] else [])" by blast
  from Cons.IH [of "i + 1" st1]
  obtain st' where m: "main_loop cfg ok (i + 1) bs st1 = Inr st'"
    and k': "ckpt_frames (trace st') =
       ckpt_frames (trace st1) @ ckpt_schedule cfg (i + 1) (collected_frames st1) (map numel bs)"
    by blast
  show ?case using b m k' k c by (simp add: Let_def)
qed

lemma replicate_ten: "replicate 10 x = [x, x, x, x, x, x, x, x, x, x]"
  by (simp add: numeral_eq_Suc)

lemma schedule_ten:
  assumes "total_frames cfg = 10000" "frames_per_batch cfg = 1000" "test_interval cfg = 2000"
  shows "ckpt_schedule cfg 0 0 (replicate 10 1000) =
     filter (\<lambda>c. init_random_frames cfg \<le> c) [3000, 5000, 7000, 9000, 10000]"
  using assms by (simp add: replicate_ten ckpt_due_def Let_def)


lemma main_ckpt_schedule:
  assumes "has_logger cfg \<longrightarrow> (\<forall>c k s. ok c k s)"
    and "frames_per_batch cfg \<noteq> 0" and "test_interval cfg \<noteq> 0" and "batch_size cfg \<noteq> 0"
    and "0 \<le> num_updates cfg"
  shows "\<exists>st. main cfg ok bs = Inr st \<and>
     ckpt_frames (trace st) = ckpt_schedule cfg 0 0 (map numel bs)"
proof -
  from main_loop_ckpt [OF assms(1-3), of 0 bs init_state]
  obtain st where m: "main_loop cfg ok 0 bs init_state = Inr st"
    and k: "ckpt_frames (trace st) =
       ckpt_frames (trace init_state) @ ckpt_schedule cfg 0 (collected_frames init_state) (map numel bs)"
    by blast
  from k have "ckpt_frames (trace (emit [Shutdown] st)) = ckpt_schedule cfg 0 0 (map numel bs)"
    by (simp add: emit_def ckpt_frames_append init_state_def)
  with m assms(4,5) show ?thesis by (simp add: main_def)
qed

text \<open>
  With a negative \<open>num_updates\<close> (a negative \<open>utd_ratio\<close>, say) \<open>main\<close> raises
  at \<open>torch.zeros(num_updates)\<close>, before the first batch: no checkpoint is written.
\<close>

lemma negative_num_updates_raises:
  assumes "batch_size cfg \<noteq> 0" and "num_updates cfg < 0"
  shows "main cfg ok bs = Inl (NegativeDimensionError, init_state)"
    and "ckpt_frames (trace (final_state (main cfg ok bs))) = []"
  using assms by (simp_all add: main_def final_state_def init_state_def)

lemma ckpt_due_even:
  assumes "total_frames cfg = 10000" "frames_per_batch cfg = 1000" "test_interval cfg = 2000"
  shows "ckpt_due cfg i cf = ((0 < i \<and> even i) \<or> 10000 \<le> cf)"
proof -
  have a: "((i - 1) * 1000) div 2000 = (i - 1) div 2" by simp
  have b: "(i * 1000) div 2000 = i div 2" by simp
  have c: "((i - 1) div 2 < i div 2) = even i" by presburger
  show ?thesis unfolding ckpt_due_def Let_def assms a b c by (rule refl)
qed

text \<open>
  Claim C1, as amended. Take \<open>total_frames = 10000\<close>, \<open>frames_per_batch = 1000\<close> and
  \<open>test_interval = 2000\<close>, and a run over ten batches of 1000 frames in which no call
  raises: \<open>batch_size\<close> is positive, \<open>num_updates\<close> is not negative, and the
  logger, if one is configured, does not fail. The checkpoint test compares the numbers
  of completed test intervals at \<open>(i - 1) * frames_per_batch\<close> and at
  \<open>i * frames_per_batch\<close>, the frames collected before batch \<open>i\<close> (counted from
  0): here it holds exactly in the batches of even index \<open>i > 0\<close> and in those that
  exhaust the frame budget. The checkpoint is written at \<open>collected_frames\<close>, which
  already counts batch \<open>i\<close>, so a boundary crossed by one batch is seen in the next
  one: the checkpoints are written at the cumulative frame counts 3000, 5000, 7000, 9000
  and 10000, those below \<open>init_random_frames\<close> left out. The last one comes from the
  budget test \<open>collected_frames \<ge> total_frames\<close>, off an interval boundary of the
  test.
\<close>

theorem checkpoints_every_other_batch:
  assumes "total_frames cfg = 10000" "frames_per_batch cfg = 1000" "test_interval cfg = 2000"
    and "0 < batch_size cfg" and "0 \<le> num_updates cfg"
    and "has_logger cfg \<longrightarrow> (\<forall>c k s. ok c k s)"
    and "map numel bs = replicate 10 1000"
  shows "(\<exists>st. main cfg ok bs = Inr st \<and>
       ckpt_frames (trace st) =
         filter (\<lambda>c. init_random_frames cfg \<le> c) [3000, 5000, 7000, 9000, 10000])
     \<and> (\<forall>i cf. ckpt_due cfg i cf = ((0 < i \<and> even i) \<or> 10000 \<le> cf))"
proof -
  have nz: "frames_per_batch cfg \<noteq> 0" "test_interval cfg \<noteq> 0" "batch_size cfg \<noteq> 0"
    using assms(2,3,4) by simp_all
  have "\<exists>st. main cfg ok bs = Inr st \<and>
     ckpt_frames (trace st) = ckpt_schedule cfg 0 0 (map numel bs)"
    by (rule main_ckpt_schedule [OF assms(6) nz assms(5)])
  then
  have "\<exists>st. main cfg ok bs = Inr st \<and>
       ckpt_frames (trace st) =
         filter (\<lambda>c. init_random_frames cfg \<le> c) [3000, 5000, 7000, 9000, 10000]"
    using schedule_ten [OF assms(1-3)] assms(7) by simp
  moreover have "\<forall>i cf. ckpt_due cfg i cf = ((0 < i \<and> even i) \<or> 10000 \<le> cf)"
    using ckpt_due_even [OF assms(1-3)] by blast
  ultimately show ?thesis by blast
qed

text \<open>The theorem at the example configuration, whose warm-up ends at 2000 frames.\<close>

theorem checkpoints_every_other_batch_witness:
  "\<exists>st. main example_config quiet ten_batches = Inr st \<and>
     ckpt_frames (trace st) = [3000, 5000, 7000, 9000, 10000]"
proof -
  have h: "total_frames example_config = 10000" "frames_per_batch example_config = 1000"
    "test_interval example_config = 2000" "0 < batch_size example_config"
    "0 \<le> num_updates example_config"
    by (simp_all add: example_fields)
  have q: "has_logger example_config \<longrightarrow> (\<forall>c k s. quiet c k s)"
    by (simp add: quiet_def)
  have b: "map numel ten_batches = replicate 10 1000"
    by (simp add: ten_batches_def)
  from checkpoints_every_other_batch [OF h q b]
  show ?thesis by (simp add: example_fields)
qed

text \<open>
  Claim C1 as stated names the frame counts 2000, 4000, 6000, 8000 and 10000. On the
  example configuration no checkpoint is written at 2000 frames.
\<close>

theorem checkpoints_on_boundaries_counterexample:
  "ckpt_frames (trace (final_state (main example_config quiet ten_batches)))
     = [3000, 5000, 7000, 9000, 10000] \<and>
   2000 \<notin> set (ckpt_frames (trace (final_state (main example_config quiet ten_batches))))"
proof -
  have "\<exists>st. main example_config quiet ten_batches = Inr st \<and>
     ckpt_frames (trace st) = ckpt_schedule example_config 0 0 (map numel ten_batches)"
    by (rule main_ckpt_schedule) (simp_all add: example_fields quiet_def)
  then obtain st where "main example_config quiet ten_batches = Inr st"
    and "ckpt_frames (trace st) = ckpt_schedule example_config 0 0 (map numel ten_batches)"
    by blast
  moreover have "ckpt_schedule example_config 0 0 (map numel ten_batches) = [3000, 5000, 7000, 9000, 10000]"
    by (simp add: ten_batches_def replicate_ten example_config_def ckpt_due_def)
  ultimately have "ckpt_frames (trace (final_state (main example_config quiet ten_batches)))
      = [3000, 5000, 7000, 9000, 10000]"
    by (simp add: final_state_def)
  then show ?thesis by simp
qed

section \<open>Logging failures\<close>

lemma count_logs_append: "count_logs (xs @ ys) = count_logs xs + count_logs ys"
  by (induction xs rule: count_logs.induct) simp_all

lemma all_logs_ok_append:
  "all_logs_ok ok c (xs @ ys) = (all_logs_ok ok c xs \<and> all_logs_ok ok (c + count_logs xs) ys)"
  by (induction ok c xs rule: all_logs_ok.induct) simp_all

lemma logs_sound_emit:
  "logs_sound ok st \<Longrightarrow> count_logs es = 0 \<Longrightarrow> all_logs_ok ok (n_logs st) es \<Longrightarrow> logs_sound ok (emit es st)"
  by (simp add: logs_sound_def emit_def all_logs_ok_append count_logs_append)

lemma log_items_sound:
  "logs_sound ok st \<Longrightarrow>
     (case log_items ok ks st of Inr st' \<Rightarrow> logs_sound ok st' | Inl x \<Rightarrow> stopped_at_log ok x)"
proof (induction ks arbitrary: st)
  case Nil
  then show ?case by simp
next
  case (Cons k ks)
  let ?st' = "(emit [LogScalar k (collected_frames st)] st)\<lparr>n_logs := Suc (n_logs st)\<rparr>"
  show ?case
  proof (cases "ok (n_logs st) k (collected_frames st)")
    case True
    with Cons.prems have "logs_sound ok ?st'"
      by (simp add: logs_sound_def emit_def all_logs_ok_append count_logs_append)
    from Cons.IH [OF this] True show ?thesis by (simp add: Let_def)
  next
    case False
    with Cons.prems have "stopped_at_log ok (LoggerError k (collected_frames st), ?st')"
      by (auto simp: stopped_at_log_def logs_sound_def emit_def)
    with False show ?thesis by (simp add: Let_def)
  qed
qed

lemma log_all_sound:
  "logs_sound ok st \<Longrightarrow>
     (case log_all cfg ok ks st of Inr st' \<Rightarrow> logs_sound ok st'
      | Inl x \<Rightarrow> has_logger cfg \<and> stopped_at_log ok x)"
  using log_items_sound [of ok st ks]
  by (auto simp: log_all_def split: sum.splits)

lemma update_step_sound: "logs_sound ok st \<Longrightarrow> logs_sound ok (update_step cfg st)"
  by (simp add: update_step_def Let_def logs_sound_def emit_def all_logs_ok_append count_logs_append)

lemma opt_loop_sound: "logs_sound ok st \<Longrightarrow> logs_sound ok (opt_loop cfg n st)"
  by (induction n arbitrary: st) (simp_all add: update_step_sound)

lemma batch_step_sound:
  assumes "logs_sound ok st"
  shows "run_sound cfg ok (batch_step cfg ok i b st)"
proof -
  let ?cf = "collected_frames st + int (numel b)"
  let ?st1 = "(emit [GreedyStep (numel b), Extend (numel b)] st)\<lparr>collected_frames := ?cf\<rparr>"
  have s1: "logs_sound ok ?st1"
    using assms by (simp add: logs_sound_def emit_def all_logs_ok_append count_logs_append)
  show ?thesis
  proof (cases "?cf < init_random_frames cfg")
    case True
    have "batch_step cfg ok i b st = log_all cfg ok (episode_keys b) ?st1"
      using True by (simp add: batch_step_def Let_def)
    with log_all_sound [OF s1, of cfg "episode_keys b"] show ?thesis
      by (cases "log_all cfg ok (episode_keys b) ?st1") (simp_all add: run_sound_def)
  next
    case False
    let ?st2 = "opt_loop cfg (nat (num_updates cfg)) ?st1"
    let ?st3 = "if ckpt_due cfg i ?cf then emit [SaveModel ?cf] ?st2 else ?st2"
    let ?r = "log_all cfg ok (episode_keys b @ train_keys cfg) ?st3"
    have s2: "logs_sound ok ?st2" using s1 by (rule opt_loop_sound)
    then have s3: "logs_sound ok ?st3"
      by (simp add: logs_sound_def emit_def all_logs_ok_append count_logs_append)
    have bs: "batch_step cfg ok i b st =
        (if frames_per_batch cfg = 0 then Inl (ZeroDivisionError, ?st2)
         else if test_interval cfg = 0 then Inl (ZeroDivisionError, ?st2)
         else case ?r of Inl e \<Rightarrow> Inl e | Inr st4 \<Rightarrow> Inr (emit [UpdatePolicyWeights] st4))"
      using False by (simp add: batch_step_def Let_def)
    show ?thesis
    proof (cases "frames_per_batch cfg = 0 \<or> test_interval cfg = 0")
      case True
      with s2 show ?thesis unfolding bs by (auto simp: run_sound_def)
    next
      case nz: False
      show ?thesis
      proof (cases ?r)
        case (Inl x)
        with log_all_sound [OF s3, of cfg "episode_keys b @ train_keys cfg"] nz
        show ?thesis unfolding bs by (simp add: run_sound_def)
      next
        case (Inr st4)
        with log_all_sound [OF s3, of cfg "episode_keys b @ train_keys cfg"]
        have "logs_sound ok st4" by simp
        then have "logs_sound ok (emit [UpdatePolicyWeights] st4)"
          by (simp add: logs_sound_def emit_def all_logs_ok_append count_logs_append)
        with Inr nz show ?thesis unfolding bs by (simp add: run_sound_def)
      qed
    qed
  qed
qed

lemma main_loop_sound:
  "logs_sound ok st \<Longrightarrow> run_sound cfg ok (main_loop cfg ok i bs st)"
proof (induction bs arbitrary: i st)
  case Nil
  then show ?case by (simp add: run_sound_def)
next
  case (Cons b bs)
  from batch_step_sound [OF Cons.prems, of cfg i b]
  show ?case using Cons.IH
    by (cases "batch_step cfg ok i b st") (auto simp: run_sound_def)
qed

lemma main_sound: "run_sound cfg ok (main cfg ok bs)"
proof -
  have i: "logs_sound ok init_state" by (simp add: logs_sound_def init_state_def)
  have l: "run_sound cfg ok (main_loop cfg ok 0 bs init_state)"
    by (rule main_loop_sound [OF i])
  show ?thesis
  proof (cases "batch_size cfg = 0 \<or> num_updates cfg < 0")
    case True
    with i show ?thesis by (auto simp: main_def run_sound_def)
  next
    case False
    show ?thesis
    proof (cases "main_loop cfg ok 0 bs init_state")
      case (Inl x)
      with l False show ?thesis by (simp add: main_def)
    next
      case (Inr st)
      with l have "logs_sound ok st" by (simp add: run_sound_def)
      then have "logs_sound ok (emit [Shutdown] st)"
        by (simp add: logs_sound_def emit_def all_logs_ok_append count_logs_append)
      with Inr False show ?thesis by (simp add: main_def run_sound_def)
    qed
  qed
qed

text \<open>
  Claim C6, as amended. A failure of \<open>log_scalar\<close> is not caught. \<open>main\<close> returns
  normally only if every \<open>log_scalar\<close> call it made returned normally; when a call
  raises, \<open>main\<close> ends with that error right at the call, so that nothing after it
  runs: no later batch, no refresh of the policy weights, no shutdown. Without a
  configured backend no call is made, and logging cannot end the run. (The other
  errors of the model are a division by zero and a negative \<open>num_updates\<close>; a run
  that ends with one of them made only \<open>log_scalar\<close> calls that returned normally.)
\<close>

theorem logger_failure_leaves_main:
  "case main cfg ok bs of
     Inr st \<Rightarrow> all_logs_ok ok 0 (trace st)
   | Inl (e, st) \<Rightarrow>
       ((e = ZeroDivisionError \<or> e = NegativeDimensionError) \<and> all_logs_ok ok 0 (trace st)) \<or>
       (has_logger cfg \<and>
        (\<exists>k s tr. e = LoggerError k s \<and> trace st = tr @ [LogScalar k s] \<and>
           all_logs_ok ok 0 tr \<and> \<not> ok (count_logs tr) k s))"
  using main_sound [of cfg ok bs]
  by (auto simp: run_sound_def logs_sound_def stopped_at_log_def split: sum.splits)

text \<open>
  Claim C6 as stated says that a failing \<open>log_scalar\<close> is caught and ignored. On the
  example configuration, with a backend whose fourth call raises, \<open>main\<close> ends with
  the logger's error in the second batch, at 2000 of 10000 frames.
\<close>

theorem logger_failure_is_caught_counterexample:
  "main example_config fourth_call_fails two_batches =
     Inl (LoggerError ''train/q_loss'' 2000,
          \<lparr>collected_frames = 2000, n_samples = 2, n_logs = 4,
           trace = [GreedyStep 1000, Extend 1000,
             LogScalar ''train/episode_reward'' 1000,
             LogScalar ''train/episode_length'' 1000,
             LogScalar ''train/episode_weed_ratio'' 1000,
             GreedyStep 1000, Extend 1000,
             Sample 0, LossForward 0, ZeroGrad, Backward, ClipGradNorm,
             OptimizerStep 0, TargetNetStep, UpdatePriority 0,
             Sample 1, LossForward 1, ZeroGrad, Backward, ClipGradNorm,
             OptimizerStep 1, TargetNetStep, UpdatePriority 1,
             LogScalar ''train/q_loss'' 2000]\<rparr>)"
  by (simp add: main_def two_batches_def batch_step_def example_fields Let_def
     fourth_call_fails_def init_state_def emit_def log_all_def
     episode_keys_def train_keys_def update_step_def ckpt_due_def)

text \<open>The theorem at that run.\<close>

theorem logger_failure_leaves_main_witness:
  "\<exists>tr. trace (final_state (main example_config fourth_call_fails two_batches))
       = tr @ [LogScalar ''train/q_loss'' 2000] \<and>
     all_logs_ok fourth_call_fails 0 tr \<and>
     \<not> fourth_call_fails (count_logs tr) ''train/q_loss'' 2000"
proof -
  have m: "\<exists>st. main example_config fourth_call_fails two_batches =
      Inl (LoggerError ''train/q_loss'' 2000, st)"
    by (simp add: main_def two_batches_def batch_step_def example_fields Let_def
     fourth_call_fails_def init_state_def emit_def log_all_def
     episode_keys_def train_keys_def update_step_def ckpt_due_def)
  then obtain st where "main example_config fourth_call_fails two_batches =
      Inl (LoggerError ''train/q_loss'' 2000, st)" by blast
  with logger_failure_leaves_main
    [where cfg = example_config and ok = fourth_call_fails and bs = two_batches]
  show ?thesis by (auto simp: final_state_def)
qed

section \<open>Sampling and priority updates\<close>

lemma paired_append: "paired p xs \<Longrightarrow> paired None ys \<Longrightarrow> paired p (xs @ ys)"
  by (induction p xs rule: paired.induct) simp_all

lemma replay_inv_main: "replay_inv (final_state (main cfg ok bs))"
proof (rule main_invariant [where P = replay_inv])
  show "replay_inv init_state" by (simp add: replay_inv_def init_state_def)
next
  fix st assume "replay_inv st"
  then show "replay_inv (update_step cfg st)"
    by (simp add: replay_inv_def update_step_def Let_def emit_def paired_append)
qed (simp_all add: replay_inv_def emit_def paired_append)

text \<open>
  Claim C2. In every run of \<open>main\<close>, whether it returns or raises, each batch
  returned by \<open>replay_buffer.sample\<close> gets exactly one
  \<open>update_tensordict_priority\<close> call, with that batch, before the next \<open>sample\<close>
  call and before the next \<open>extend\<close>; no sampled batch is left without its update.
  Numbering the \<open>sample\<close> calls from 0, the calls on the replay buffer that sample
  or update priorities are \<open>Sample 0, UpdatePriority 0, Sample 1, UpdatePriority 1, \<dots>\<close>
  in this order. The statement is about the calls the loop makes; what the library does
  inside \<open>sample\<close> (it may prefetch batches) is not modelled.
\<close>

theorem every_sample_gets_its_priority_update:
  "paired None (trace (final_state (main cfg ok bs))) \<and>
   filter is_replay_call (trace (final_state (main cfg ok bs))) =
     concat (map (\<lambda>k. [Sample k, UpdatePriority k])
       [0..<n_samples (final_state (main cfg ok bs))])"
  using replay_inv_main [of cfg ok bs] by (simp add: replay_inv_def)

section \<open>Hard updates of the target network\<close>

lemma optimizer_steps_append:
  "optimizer_steps (xs @ ys) = optimizer_steps xs + optimizer_steps ys"
  by (induction xs rule: optimizer_steps.induct) simp_all

lemma nets_after_append:
  "nets_after opt f p0 (xs @ ys) = fold (net_event opt f) ys (nets_after opt f p0 xs)"
  by (simp add: nets_after_def)

lemma target_ok_append:
  "target_ok opt f s n (xs @ ys) =
     (target_ok opt f s n xs \<and>
      target_ok opt f (fold (net_event opt f) xs s) (n + optimizer_steps xs) ys)"
proof (induction xs arbitrary: s n)
  case Nil
  then show ?case by simp
next
  case (Cons e xs)
  show ?case
    by (cases e) (simp_all add: Cons.IH Let_def add.assoc)
qed

lemma target_ok_split:
  assumes "target_ok opt f (nets_init p0) 0 (tr @ e # rest)"
  shows "if e = TargetNetStep \<and> f dvd optimizer_steps tr
         then target (nets_after opt f p0 (tr @ [e])) = online (nets_after opt f p0 (tr @ [e]))
         else target (nets_after opt f p0 (tr @ [e])) = target (nets_after opt f p0 tr)"
  using assms
  by (auto simp: target_ok_append nets_after_def Let_def split: if_splits)

lemma hard_update_fires:
  assumes "0 < f" "counter s = n mod f"
  shows "(Suc (counter s) = f) = (f dvd Suc n)"
    and "Suc (counter s) \<noteq> f \<Longrightarrow> Suc (counter s) = Suc n mod f"
proof -
  show "(Suc (counter s) = f) = (f dvd Suc n)"
    using assms by (metis mod_Suc dvd_eq_mod_eq_0 nat.distinct(1))
  show "Suc (counter s) \<noteq> f \<Longrightarrow> Suc (counter s) = Suc n mod f"
    using assms by (simp add: mod_Suc)
qed


lemma nets_inv_other:
  assumes "nets_inv opt f p0 st"
    and "\<forall>e \<in> set es. net_event opt f e = (\<lambda>s. s) \<and> optimizer_steps [e] = 0 \<and> e \<noteq> TargetNetStep"
  shows "target_ok opt f (nets_init p0) 0 (trace st @ es) \<and>
     optimizer_steps (trace st @ es) = n_samples st \<and>
     nets_after opt f p0 (trace st @ es) = nets_after opt f p0 (trace st)"
  using assms(2)
proof (induction es rule: rev_induct)
  case Nil
  with assms(1) show ?case by (simp add: nets_inv_def)
next
  case (snoc e es)
  then have IH: "target_ok opt f (nets_init p0) 0 (trace st @ es)"
      "optimizer_steps (trace st @ es) = n_samples st"
      "nets_after opt f p0 (trace st @ es) = nets_after opt f p0 (trace st)"
    and e: "net_event opt f e = (\<lambda>s. s)" "optimizer_steps [e] = 0" "e \<noteq> TargetNetStep"
    by simp_all
  have "target_ok opt f (nets_init p0) 0 ((trace st @ es) @ [e])"
    unfolding target_ok_append [of opt f _ _ "trace st @ es" "[e]"]
    using IH(1) e by (simp add: Let_def)
  moreover have "optimizer_steps ((trace st @ es) @ [e]) = n_samples st"
    using IH(2) e(2) by (simp only: optimizer_steps_append)
  moreover have "nets_after opt f p0 ((trace st @ es) @ [e]) = nets_after opt f p0 (trace st)"
    using IH(3) e(1) by (simp only: nets_after_append) simp
  ultimately show ?case by simp
qed

lemma nets_inv_emit:
  assumes "nets_inv opt f p0 st"
    and "\<forall>e \<in> set es. net_event opt f e = (\<lambda>s. s) \<and> optimizer_steps [e] = 0 \<and> e \<noteq> TargetNetStep"
  shows "nets_inv opt f p0 (emit es st)"
  using nets_inv_other [OF assms] assms(1) by (simp add: nets_inv_def emit_def)

lemma nets_inv_update_step:
  assumes f: "0 < f" and inv: "nets_inv opt f p0 st"
  shows "nets_inv opt f p0 (update_step cfg st)"
proof -
  let ?k = "n_samples st"
  let ?pre = "[Sample ?k, LossForward ?k, ZeroGrad, Backward] @ (if clip_enabled cfg then [ClipGradNorm] else [])"
  have pre: "\<forall>e \<in> set ?pre. net_event opt f e = (\<lambda>s. s) \<and> optimizer_steps [e] = 0 \<and> e \<noteq> TargetNetStep"
    by (auto simp: fun_eq_iff)
  from nets_inv_other [OF inv pre]
  have a: "target_ok opt f (nets_init p0) 0 (trace st @ ?pre)"
    and b: "optimizer_steps (trace st @ ?pre) = ?k"
    and c: "nets_after opt f p0 (trace st @ ?pre) = nets_after opt f p0 (trace st)"
    by simp_all
  let ?s = "nets_after opt f p0 (trace st)"
  have cnt: "counter ?s = ?k mod f" using inv by (simp add: nets_inv_def)
  let ?s1 = "?s\<lparr>online := opt (online ?s) ?k\<rparr>"
  let ?s2 = "hard_update_step f ?s1"
  have cnt1: "counter ?s1 = ?k mod f" using cnt by simp
  have fires: "(Suc (counter ?s1) = f) = (f dvd Suc ?k)"
    by (rule hard_update_fires(1) [OF f cnt1])
  have cnt2: "counter ?s2 = Suc ?k mod f"
  proof (cases "Suc (counter ?s1) = f")
    case True
    with fires show ?thesis by (simp add: hard_update_step_def)
  next
    case False
    from hard_update_fires(2) [OF f cnt1 False] False show ?thesis
      by (simp add: hard_update_step_def)
  qed
  have tgt: "if f dvd Suc ?k then target ?s2 = online ?s2 else target ?s2 = target ?s1"
    using fires by (simp add: hard_update_step_def)
  let ?blk = "[OptimizerStep ?k, TargetNetStep, UpdatePriority ?k]"
  have fold_blk: "fold (net_event opt f) ?blk ?s = ?s2" by simp
  have ok_blk: "target_ok opt f ?s ?k ?blk"
    using tgt by (simp add: Let_def)
  have tr: "trace (update_step cfg st) = (trace st @ ?pre) @ ?blk"
    by (simp add: update_step_def Let_def emit_def)
  have "target_ok opt f (nets_init p0) 0 ((trace st @ ?pre) @ ?blk)"
    unfolding target_ok_append [of opt f _ _ "trace st @ ?pre" ?blk]
    using a b c ok_blk by (simp add: nets_after_def)
  moreover have "optimizer_steps ((trace st @ ?pre) @ ?blk) = Suc ?k"
    using b by (simp only: optimizer_steps_append) simp
  moreover have "nets_after opt f p0 ((trace st @ ?pre) @ ?blk) = ?s2"
    using c fold_blk by (simp only: nets_after_append)
  ultimately show ?thesis
    unfolding nets_inv_def tr using cnt2 by (simp add: update_step_def Let_def emit_def)
qed

lemma nets_inv_main:
  assumes "0 < f"
  shows "nets_inv opt f p0 (final_state (main cfg ok bs))"
proof (rule main_invariant [where P = "nets_inv opt f p0"])
  show "nets_inv opt f p0 init_state"
    by (simp add: nets_inv_def init_state_def nets_after_def nets_init_def)
next
  fix st assume "nets_inv opt f p0 st"
  then show "nets_inv opt f p0 (update_step cfg st)"
    by (rule nets_inv_update_step [OF assms])
next
  fix st :: loop_state and n assume i: "nets_inv opt f p0 st"
  have "nets_inv opt f p0 (emit [GreedyStep n, Extend n] st)"
    by (rule nets_inv_emit [OF i]) (simp add: fun_eq_iff)
  then show "nets_inv opt f p0
      ((emit [GreedyStep n, Extend n] st)\<lparr>collected_frames := collected_frames st + int n\<rparr>)"
    by (simp add: nets_inv_def emit_def)
next
  fix st :: loop_state and k assume i: "nets_inv opt f p0 st"
  have "nets_inv opt f p0 (emit [LogScalar k (collected_frames st)] st)"
    by (rule nets_inv_emit [OF i]) (simp add: fun_eq_iff)
  then show "nets_inv opt f p0
      ((emit [LogScalar k (collected_frames st)] st)\<lparr>n_logs := Suc (n_logs st)\<rparr>)"
    by (simp add: nets_inv_def emit_def)
next
  fix st :: loop_state and c assume i: "nets_inv opt f p0 st"
  show "nets_inv opt f p0 (emit [SaveModel c] st)"
    by (rule nets_inv_emit [OF i]) (simp add: fun_eq_iff)
next
  fix st :: loop_state assume i: "nets_inv opt f p0 st"
  show "nets_inv opt f p0 (emit [UpdatePolicyWeights] st)"
    by (rule nets_inv_emit [OF i]) (simp add: fun_eq_iff)
next
  fix st :: loop_state assume i: "nets_inv opt f p0 st"
  show "nets_inv opt f p0 (emit [Shutdown] st)"
    by (rule nets_inv_emit [OF i]) (simp add: fun_eq_iff)
qed

text \<open>
  Claim C3. Take any run of \<open>main\<close>, returning or raising, with a positive
  \<open>hard_update_freq\<close>, and any call \<open>e\<close> of its trace, made after the calls
  \<open>tr\<close>. If \<open>e\<close> is a call of \<open>target_net_updater.step()\<close> made when the number
  of optimizer steps so far is a multiple of \<open>hard_update_freq\<close> (a hard-update
  event: the loop calls the updater once after each optimizer step), then right after
  \<open>e\<close> the target parameters equal the online parameters. Every other call leaves the
  target parameters as they were, so they do not change between two hard-update events.
\<close>

theorem target_network_follows_hard_updates:
  assumes "0 < hard_update_freq cfg"
    and "trace (final_state (main cfg ok bs)) = tr @ e # rest"
  shows "if e = TargetNetStep \<and> hard_update_freq cfg dvd optimizer_steps tr
         then target (nets_after opt (hard_update_freq cfg) p0 (tr @ [e]))
              = online (nets_after opt (hard_update_freq cfg) p0 (tr @ [e]))
         else target (nets_after opt (hard_update_freq cfg) p0 (tr @ [e]))
              = target (nets_after opt (hard_update_freq cfg) p0 tr)"
proof -
  have "target_ok opt (hard_update_freq cfg) (nets_init p0) 0 (trace (final_state (main cfg ok bs)))"
    using nets_inv_main [OF assms(1), of opt p0 cfg ok bs] by (simp add: nets_inv_def)
  then show ?thesis unfolding assms(2) by (rule target_ok_split)
qed


text \<open>
  The example configuration updates the target network every four optimizer steps and
  makes two optimizer steps per batch after a warm-up batch: the first hard update is
  the updater's call in the third batch, after optimizer step 3.
\<close>

lemma three_batches_trace:
  "trace (final_state (main example_config quiet three_batches)) =
     [GreedyStep 1000, Extend 1000,
      GreedyStep 1000, Extend 1000,
      Sample 0, LossForward 0, ZeroGrad, Backward, ClipGradNorm,
      OptimizerStep 0, TargetNetStep, UpdatePriority 0,
      Sample 1, LossForward 1, ZeroGrad, Backward, ClipGradNorm,
      OptimizerStep 1, TargetNetStep, UpdatePriority 1,
      LogScalar ''train/q_loss'' 2000, LogScalar ''train/epsilon'' 2000,
      LogScalar ''train/sampling_time'' 2000, LogScalar ''train/training_time'' 2000,
      LogScalar ''train/q_values'' 2000, LogScalar ''train/q_logits'' 2000,
      UpdatePolicyWeights,
      GreedyStep 1000, Extend 1000,
      Sample 2, LossForward 2, ZeroGrad, Backward, ClipGradNorm,
      OptimizerStep 2, TargetNetStep, UpdatePriority 2,
      Sample 3, LossForward 3, ZeroGrad, Backward, ClipGradNorm,
      OptimizerStep 3]
     @ TargetNetStep #
     [UpdatePriority 3, SaveModel 3000,
      LogScalar ''train/q_loss'' 3000, LogScalar ''train/epsilon'' 3000,
      LogScalar ''train/sampling_time'' 3000, LogScalar ''train/training_time'' 3000,
      LogScalar ''train/q_values'' 3000, LogScalar ''train/q_logits'' 3000,
      UpdatePolicyWeights, Shutdown]"
  by (simp add: main_def three_batches_def batch_step_def example_fields Let_def
     quiet_def init_state_def emit_def log_all_def final_state_def
     episode_keys_def train_keys_def update_step_def ckpt_due_def)

theorem target_network_follows_hard_updates_witness:
  "\<exists>tr rest. trace (final_state (main example_config quiet three_batches))
       = tr @ TargetNetStep # rest \<and>
     optimizer_steps tr = 4 \<and>
     target (nets_after toy_opt 4 1 (tr @ [TargetNetStep])) = 27 \<and>
     online (nets_after toy_opt 4 1 (tr @ [TargetNetStep])) = 27"
proof -
  let ?tr = "[GreedyStep 1000, Extend 1000,
      GreedyStep 1000, Extend 1000,
      Sample 0, LossForward 0, ZeroGrad, Backward, ClipGradNorm,
      OptimizerStep 0, TargetNetStep, UpdatePriority 0,
      Sample 1, LossForward 1, ZeroGrad, Backward, ClipGradNorm,
      OptimizerStep 1, TargetNetStep, UpdatePriority 1,
      LogScalar ''train/q_loss'' 2000, LogScalar ''train/epsilon'' 2000,
      LogScalar ''train/sampling_time'' 2000, LogScalar ''train/training_time'' 2000,
      LogScalar ''train/q_values'' 2000, LogScalar ''train/q_logits'' 2000,
      UpdatePolicyWeights,
      GreedyStep 1000, Extend 1000,
      Sample 2, LossForward 2, ZeroGrad, Backward, ClipGradNorm,
      OptimizerStep 2, TargetNetStep, UpdatePriority 2,
      Sample 3, LossForward 3, ZeroGrad, Backward, ClipGradNorm,
      OptimizerStep 3]"
  have f: "0 < hard_update_freq example_config" by (simp add: example_fields)
  have n: "optimizer_steps ?tr = 4" by simp
  have o: "online (nets_after toy_opt 4 1 (?tr @ [TargetNetStep])) = 27"
    by (simp add: nets_after_def nets_init_def toy_opt_def hard_update_step_def)
  from target_network_follows_hard_updates [OF f three_batches_trace, of toy_opt 1]
  have "target (nets_after toy_opt 4 1 (?tr @ [TargetNetStep]))
      = online (nets_after toy_opt 4 1 (?tr @ [TargetNetStep]))"
    unfolding n by (simp add: example_fields)
  with o n three_batches_trace show ?thesis by metis
qed

section \<open>Annealing of the exploration epsilon\<close>

lemma env_steps_append: "env_steps (xs @ ys) = env_steps xs + env_steps ys"
  by (induction xs rule: env_steps.induct) simp_all

lemma anneal_step_closed:
  fixes d e y :: rat
  assumes "0 \<le> d"
  shows "max e (max e y - d) = max e (y - d)"
  using assms by (auto simp: max_def)

lemma greedy_step_closed:
  assumes "eps_end cfg \<le> eps_start cfg" "0 < annealing_frames cfg"
  shows "greedy_step cfg n (max (eps_end cfg) y) =
     max (eps_end cfg) (y - of_nat n * ((eps_start cfg - eps_end cfg) / of_int (annealing_frames cfg)))"
proof -
  define d where "d = (eps_start cfg - eps_end cfg) / of_int (annealing_frames cfg)"
  have d: "0 \<le> d" using assms by (simp add: d_def)
  have st: "\<And>y. anneal_step cfg (max (eps_end cfg) y) = max (eps_end cfg) (y - d)"
    unfolding anneal_step_def d_def [symmetric] by (rule anneal_step_closed [OF d])
  have "greedy_step cfg n (max (eps_end cfg) y) = max (eps_end cfg) (y - of_nat n * d)"
  proof (induction n arbitrary: y)
    case 0
    then show ?case by simp
  next
    case (Suc n)
    have "greedy_step cfg (Suc n) (max (eps_end cfg) y) = max (eps_end cfg) (y - d - of_nat n * d)"
      by (simp add: st Suc.IH)
    also have "y - d - of_nat n * d = y - of_nat (Suc n) * d"
      by (simp add: algebra_simps)
    finally show ?case .
  qed
  then show ?thesis by (simp add: d_def)
qed

lemma fold_eps_closed:
  assumes "eps_end cfg \<le> eps_start cfg" "0 < annealing_frames cfg"
  shows "fold (eps_event cfg) tr (max (eps_end cfg) y) =
     max (eps_end cfg)
       (y - of_nat (env_steps tr) * ((eps_start cfg - eps_end cfg) / of_int (annealing_frames cfg)))"
proof -
  define d where "d = (eps_start cfg - eps_end cfg) / of_int (annealing_frames cfg)"
  have g: "\<And>n y. greedy_step cfg n (max (eps_end cfg) y) = max (eps_end cfg) (y - of_nat n * d)"
    unfolding d_def by (rule greedy_step_closed [OF assms])
  have "fold (eps_event cfg) tr (max (eps_end cfg) y) =
     max (eps_end cfg) (y - of_nat (env_steps tr) * d)"
  proof (induction tr arbitrary: y)
    case Nil
    then show ?case by simp
  next
    case (Cons ev tr)
    show ?case
    proof (cases ev)
      case (GreedyStep n)
      then show ?thesis
        by (simp add: g Cons.IH algebra_simps)
    qed (simp_all add: Cons.IH)
  qed
  then show ?thesis by (simp add: d_def)
qed

lemma eps_after_closed:
  assumes "eps_end cfg \<le> eps_start cfg" "0 < annealing_frames cfg"
  shows "eps_after cfg tr =
     max (eps_end cfg)
       (eps_start cfg
        - of_nat (env_steps tr) * (eps_start cfg - eps_end cfg) / of_int (annealing_frames cfg))"
proof -
  have "eps_start cfg = max (eps_end cfg) (eps_start cfg)" using assms(1) by simp
  then have "eps_after cfg tr = fold (eps_event cfg) tr (max (eps_end cfg) (eps_start cfg))"
    by (simp add: eps_after_def)
  then show ?thesis by (simp add: fold_eps_closed [OF assms])
qed

lemma eps_closed_mono:
  fixes s e :: rat
  assumes "e \<le> s" "0 < n" "j \<le> k"
  shows "max e (s - of_nat k * (s - e) / of_int n) \<le> max e (s - of_nat j * (s - e) / of_int n)"
proof -
  have "(of_nat j :: rat) * (s - e) / of_int n \<le> of_nat k * (s - e) / of_int n"
    using assms by (simp add: divide_right_mono mult_right_mono)
  then show ?thesis by (simp add: max.coboundedI2)
qed

lemma eps_closed_end:
  fixes s e :: rat
  assumes "e \<le> s" "0 < n" "n \<le> int k"
  shows "max e (s - of_nat k * (s - e) / of_int n) = e"
proof -
  have "(of_int n :: rat) \<le> of_nat k"
    using assms(3) by (metis of_int_le_iff of_int_of_nat_eq)
  then have "(of_int n :: rat) * (s - e) \<le> of_nat k * (s - e)"
    using assms(1) by (simp add: mult_right_mono)
  then have "(s - e) \<le> of_nat k * (s - e) / of_int n"
    using assms(2) by (simp add: pos_le_divide_eq mult.commute)
  then show ?thesis by (simp add: max_def)
qed

lemma frames_inv_main: "frames_inv (final_state (main cfg ok bs))"
proof (rule main_invariant [where P = frames_inv])
  show "frames_inv init_state" by (simp add: frames_inv_def init_state_def)
next
  fix st assume "frames_inv st"
  then show "frames_inv (update_step cfg st)"
    by (simp add: frames_inv_def update_step_def Let_def emit_def env_steps_append)
qed (simp_all add: frames_inv_def emit_def env_steps_append)

text \<open>
  Claim C4. Assume \<open>eps_start \<ge> eps_end\<close> and a positive annealing length. Take any
  run of \<open>main\<close>, returning or raising, and two points of it, the later one \<open>tr2\<close>
  after the earlier one \<open>tr1\<close>. The module's epsilon is a function of the environment
  steps it was stepped by, \<open>max eps_end (eps_start - steps * (eps_start - eps_end) /
  annealing_frames)\<close>; the steps do not decrease and epsilon does not increase from the
  earlier point to the later one; epsilon is exactly \<open>eps_end\<close> once the steps have
  reached \<open>annealing_frames\<close> and is not below it before; and the loop steps the
  module by each batch's frame count, so that the steps at the end of the run are
  \<open>collected_frames\<close>.
\<close>

theorem epsilon_annealed_by_collected_frames:
  assumes "eps_end cfg \<le> eps_start cfg" and "0 < annealing_frames cfg"
    and "trace (final_state (main cfg ok bs)) = tr1 @ tr2 @ rest"
  shows "eps_after cfg tr1 =
       max (eps_end cfg)
         (eps_start cfg
          - of_nat (env_steps tr1) * (eps_start cfg - eps_end cfg) / of_int (annealing_frames cfg))
     \<and> env_steps tr1 \<le> env_steps (tr1 @ tr2)
     \<and> eps_after cfg (tr1 @ tr2) \<le> eps_after cfg tr1
     \<and> (if annealing_frames cfg \<le> int (env_steps tr1) then eps_after cfg tr1 = eps_end cfg
        else eps_end cfg \<le> eps_after cfg tr1)
     \<and> int (env_steps (trace (final_state (main cfg ok bs))))
         = collected_frames (final_state (main cfg ok bs))"
proof -
  have le: "env_steps tr1 \<le> env_steps (tr1 @ tr2)" by (simp add: env_steps_append)
  have c1: "eps_after cfg tr1 =
       max (eps_end cfg)
         (eps_start cfg
          - of_nat (env_steps tr1) * (eps_start cfg - eps_end cfg) / of_int (annealing_frames cfg))"
    by (rule eps_after_closed [OF assms(1,2)])
  have mono: "eps_after cfg (tr1 @ tr2) \<le> eps_after cfg tr1"
    unfolding eps_after_closed [OF assms(1,2)] by (rule eps_closed_mono [OF assms(1,2) le])
  have fin: "annealing_frames cfg \<le> int (env_steps tr1) \<Longrightarrow> eps_after cfg tr1 = eps_end cfg"
    unfolding eps_after_closed [OF assms(1,2)] by (rule eps_closed_end [OF assms(1,2)])
  have lo: "eps_end cfg \<le> eps_after cfg tr1"
    unfolding eps_after_closed [OF assms(1,2)] by simp
  have "int (env_steps (trace (final_state (main cfg ok bs))))
         = collected_frames (final_state (main cfg ok bs))"
    using frames_inv_main [of cfg ok bs] by (simp add: frames_inv_def)
  with le c1 mono fin lo show ?thesis by simp
qed


text \<open>
  The theorem on the example run, whose epsilon goes from 1 to 1/20 over 2000 frames:
  21/40 after the first batch, 1/20 after the second.
\<close>

theorem epsilon_annealed_by_collected_frames_witness:
  "eps_after example_config [GreedyStep 1000, Extend 1000] = 21 / 40 \<and>
   eps_after example_config [GreedyStep 1000, Extend 1000, GreedyStep 1000] = 1 / 20 \<and>
   collected_frames (final_state (main example_config quiet three_batches)) = 3000"
proof -
  let ?rest = "[Extend 1000,
      Sample 0, LossForward 0, ZeroGrad, Backward, ClipGradNorm,
      OptimizerStep 0, TargetNetStep, UpdatePriority 0,
      Sample 1, LossForward 1, ZeroGrad, Backward, ClipGradNorm,
      OptimizerStep 1, TargetNetStep, UpdatePriority 1,
      LogScalar ''train/q_loss'' 2000, LogScalar ''train/epsilon'' 2000,
      LogScalar ''train/sampling_time'' 2000, LogScalar ''train/training_time'' 2000,
      LogScalar ''train/q_values'' 2000, LogScalar ''train/q_logits'' 2000,
      UpdatePolicyWeights,
      GreedyStep 1000, Extend 1000,
      Sample 2, LossForward 2, ZeroGrad, Backward, ClipGradNorm,
      OptimizerStep 2, TargetNetStep, UpdatePriority 2,
      Sample 3, LossForward 3, ZeroGrad, Backward, ClipGradNorm,
      OptimizerStep 3, TargetNetStep,
      UpdatePriority 3, SaveModel 3000,
      LogScalar ''train/q_loss'' 3000, LogScalar ''train/epsilon'' 3000,
      LogScalar ''train/sampling_time'' 3000, LogScalar ''train/training_time'' 3000,
      LogScalar ''train/q_values'' 3000, LogScalar ''train/q_logits'' 3000,
      UpdatePolicyWeights, Shutdown]"
  have h1: "eps_end example_config \<le> eps_start example_config"
    and h2: "0 < annealing_frames example_config"
    by (simp_all add: example_fields)
  have t: "trace (final_state (main example_config quiet three_batches)) =
      [GreedyStep 1000, Extend 1000] @ [GreedyStep 1000] @ ?rest"
    using three_batches_trace by simp
  have t': "trace (final_state (main example_config quiet three_batches)) =
      [GreedyStep 1000, Extend 1000, GreedyStep 1000] @ [] @ ?rest"
    using three_batches_trace by simp
  have s: "env_steps (trace (final_state (main example_config quiet three_batches))) = 3000"
    unfolding t by simp
  from epsilon_annealed_by_collected_frames [OF h1 h2 t]
  have a: "eps_after example_config [GreedyStep 1000, Extend 1000] = 21 / 40"
    and c: "collected_frames (final_state (main example_config quiet three_batches)) = 3000"
    unfolding s by (simp_all add: example_fields)
  from epsilon_annealed_by_collected_frames [OF h1 h2 t']
  have b: "eps_after example_config [GreedyStep 1000, Extend 1000, GreedyStep 1000] = 1 / 20"
    by (simp add: example_fields)
  from a b c show ?thesis by simp
qed

section \<open>n-step folding\<close>

text \<open>
  Claim C5, as amended. With \<open>nstep = 3\<close> (so that the transform is configured) and
  \<open>gamma = 1/2\<close>, three consecutive transitions with the rewards 1, 2 and 3 are
  folded before insertion into a single transition. Its reward is
  \<open>1 + 1/2 * 2 + 1/4 * 3 = 11/4\<close>, that is 2.75; its next observation is the one three
  steps ahead, the next observation of the third transition; and it is done exactly
  when one of the three transitions is.
\<close>

theorem n_step_fold_of_three:
  assumes "nstep cfg = 3" and "gamma cfg = 1 / 2"
    and "map reward [t1, t2, t3] = [1, 2, 3]"
  shows "items_to_insert cfg [t1, t2, t3] =
     [\<lparr>observation = observation t1, action = action t1,
       next_observation = next_observation t3,
       reward = 11 / 4,
       done_flag = (done_flag t1 \<or> done_flag t2 \<or> done_flag t3)\<rparr>]"
proof -
  have tr: "replay_transform cfg = Some (3, 1 / 2)"
    using assms(1,2) by (simp add: replay_transform_def)
  have r: "reward t1 = 1" "reward t2 = 2" "reward t3 = 3"
    using assms(3) by simp_all
  show ?thesis
    unfolding items_to_insert_def tr by (simp add: numeral_3_eq_3 r)
qed

text \<open>The theorem on three transitions over the observations 0, 1, 2, 3.\<close>

theorem n_step_fold_of_three_witness:
  "items_to_insert example_config three_transitions =
     [\<lparr>observation = 0, action = 7, next_observation = 3, reward = 11 / 4, done_flag = True\<rparr>]"
  using n_step_fold_of_three [of example_config
      "\<lparr>observation = 0 :: nat, action = 7 :: nat, next_observation = 1, reward = 1,
        done_flag = False\<rparr>"
      "\<lparr>observation = 1, action = 8, next_observation = 2, reward = 2, done_flag = False\<rparr>"
      "\<lparr>observation = 2, action = 9, next_observation = 3, reward = 3, done_flag = True\<rparr>"]
  by (simp add: example_config_def three_transitions_def)

text \<open>
  Claim C5 as stated gives the folded reward as 3.25. The sum it writes out,
  \<open>1 + 0.5 * 2 + 0.25 * 3\<close>, is 2.75, and that is the reward of the folded transition.
\<close>

theorem n_step_reward_counterexample:
  "map reward (items_to_insert example_config three_transitions) = [11 / 4] \<and>
   map reward (items_to_insert example_config three_transitions) \<noteq> [13 / 4]"
  by (simp add: items_to_insert_def replay_transform_def example_config_def
      three_transitions_def numeral_3_eq_3)

section \<open>Eviction from the replay storage\<close>

lemma store_extend_snoc:
  "store_extend c (xs @ [x]) s = store_add c x (store_extend c xs s)"
  by (simp add: store_extend_def)

lemma rotate_overwrite:
  assumes "c < length sl"
  shows "rotate (Suc c mod length sl) (sl[c := x]) = tl (rotate c sl) @ [x]"
proof -
  have r: "rotate c sl = drop c sl @ take c sl"
    using assms by (simp add: rotate_drop_take)
  have d: "drop c sl = sl ! c # drop (Suc c) sl"
    using assms by (simp add: Cons_nth_drop_Suc)
  have u: "sl[c := x] = take c sl @ x # drop (Suc c) sl"
    using assms by (simp add: upd_conv_take_nth_drop)
  show ?thesis
  proof (cases "Suc c = length sl")
    case True
    then have "Suc c mod length sl = 0" by simp
    moreover have "drop (Suc c) sl = []" using True by simp
    ultimately show ?thesis by (simp add: r d u)
  next
    case False
    with assms have lt: "Suc c < length sl" by simp
    then have m: "Suc c mod length sl = Suc c" by simp
    have l: "length (sl[c := x]) = length sl" by simp
    have "rotate (Suc c) (sl[c := x]) = drop (Suc c) (sl[c := x]) @ take (Suc c) (sl[c := x])"
      using lt by (simp add: rotate_drop_take)
    also have "drop (Suc c) (sl[c := x]) = drop (Suc c) sl" by simp
    also have "take (Suc c) (sl[c := x]) = take c sl @ [x]"
      using assms by (simp add: take_Suc_conv_app_nth)
    finally show ?thesis by (simp add: m r d)
  qed
qed

lemma mset_rotate_eq: "mset (rotate n xs) = mset xs"
proof -
  let ?m = "n mod length xs"
  have "mset (rotate n xs) = mset (drop ?m xs) + mset (take ?m xs)"
    by (simp add: rotate_drop_take)
  also have "\<dots> = mset (take ?m xs) + mset (drop ?m xs)"
    by (rule union_commute)
  also have "\<dots> = mset (take ?m xs @ drop ?m xs)"
    by (simp only: mset_append)
  also have "\<dots> = mset xs"
    by (simp only: append_take_drop_id)
  finally show ?thesis .
qed

lemma store_inv_add:
  assumes c: "0 < c" and inv: "store_inv c xs s"
  shows "store_inv c (xs @ [x]) (store_add c x s)"
proof (cases "length xs < c")
  case True
  with inv have sl: "slots s = xs" and cu: "cursor s = length xs"
    by (simp_all add: store_inv_def)
  have "slots (store_add c x s) = xs @ [x]" using sl cu by (simp add: store_add_def)
  moreover have "cursor (store_add c x s) = length (xs @ [x]) mod c"
    using cu by (simp add: store_add_def)
  moreover have "c \<le> length (xs @ [x]) \<Longrightarrow>
      rotate (length (xs @ [x]) mod c) (xs @ [x]) = drop (length (xs @ [x]) - c) (xs @ [x])"
  proof -
    assume "c \<le> length (xs @ [x])"
    with True have e: "length (xs @ [x]) = c" by simp
    then have "length (xs @ [x]) mod c = 0" by simp
    then show ?thesis using e by (simp only: rotate0 id_apply diff_self_eq_0 drop_0)
  qed
  ultimately show ?thesis using True
    by (simp add: store_inv_def)
next
  case False
  then have ge: "c \<le> length xs" by simp
  with inv have len: "length (slots s) = c" and cu: "cursor s = length xs mod c"
    and ro: "rotate (cursor s) (slots s) = drop (length xs - c) xs"
    unfolding store_inv_def by auto
  have lt: "cursor s < length (slots s)" using cu len c by simp
  have sl': "slots (store_add c x s) = (slots s)[cursor s := x]"
    using lt by (simp add: store_add_def)
  have cu': "cursor (store_add c x s) = Suc (cursor s) mod length (slots s)"
    by (simp add: store_add_def len)
  have "rotate (cursor (store_add c x s)) (slots (store_add c x s))
      = tl (rotate (cursor s) (slots s)) @ [x]"
    unfolding sl' cu' by (rule rotate_overwrite [OF lt])
  also have "\<dots> = tl (drop (length xs - c) xs) @ [x]" by (simp only: ro)
  also have "\<dots> = drop (length (xs @ [x]) - c) (xs @ [x])"
    using ge c by (simp add: drop_Suc tl_drop Suc_diff_le)
  finally have ro': "rotate (cursor (store_add c x s)) (slots (store_add c x s))
      = drop (length (xs @ [x]) - c) (xs @ [x])" .
  have "cursor (store_add c x s) = length (xs @ [x]) mod c"
    using cu by (simp add: store_add_def mod_Suc_eq)
  moreover have "length (slots (store_add c x s)) = min c (length (xs @ [x]))"
    using len ge by (simp add: sl')
  ultimately show ?thesis using ro' ge by (simp add: store_inv_def)
qed

lemma store_inv_extend:
  assumes "0 < c"
  shows "store_inv c xs (store_extend c xs empty_store)"
proof (induction xs rule: rev_induct)
  case Nil
  then show ?case by (simp add: store_inv_def store_extend_def empty_store_def)
next
  case (snoc x xs)
  then show ?case
    unfolding store_extend_snoc by (rule store_inv_add [OF assms])
qed

text \<open>
  Claim C7. Write \<open>max_size + k\<close> items, \<open>k \<ge> 1\<close>, to an empty storage of positive
  capacity \<open>max_size\<close>. Afterwards the storage holds exactly the last \<open>max_size\<close>
  items written (as a multiset, and in insertion order when the ring is read from the
  cursor, where the oldest item sits), and at no point of the insertion does it hold
  more than \<open>max_size\<close> items. \<open>main\<close> builds the storage with
  \<open>max_size = cfg.buffer.buffer_size\<close>.
\<close>

theorem store_keeps_the_last_capacity_items:
  assumes "0 < max_size" and "length xs = max_size + k" and "1 \<le> k"
  shows "mset (slots (store_extend max_size xs empty_store)) = mset (drop k xs)
     \<and> rotate (cursor (store_extend max_size xs empty_store))
          (slots (store_extend max_size xs empty_store)) = drop k xs
     \<and> (\<forall>j. length (slots (store_extend max_size (take j xs) empty_store)) \<le> max_size)"
proof -
  let ?s = "store_extend max_size xs empty_store"
  have inv: "store_inv max_size xs ?s" by (rule store_inv_extend [OF assms(1)])
  then have "rotate (cursor ?s) (slots ?s) = drop (length xs - max_size) xs"
    using assms(2) unfolding store_inv_def by auto
  then have ro: "rotate (cursor ?s) (slots ?s) = drop k xs"
    using assms(2) by simp
  have "mset (slots ?s) = mset (rotate (cursor ?s) (slots ?s))" by (simp add: mset_rotate_eq)
  then have ms: "mset (slots ?s) = mset (drop k xs)" by (simp only: ro)
  have "\<And>j. length (slots (store_extend max_size (take j xs) empty_store)) \<le> max_size"
    using store_inv_extend [OF assms(1), of "take j xs" for j]
    by (simp add: store_inv_def)
  with ro ms show ?thesis by simp
qed

text \<open>Five items written to a storage of capacity three: 1 and 2 are evicted.\<close>

theorem store_keeps_the_last_capacity_items_witness:
  "mset (slots (store_extend 3 [1, 2, 3, 4, 5 :: nat] empty_store)) = mset [3, 4, 5] \<and>
   slots (store_extend 3 [1, 2, 3, 4, 5 :: nat] empty_store) = [4, 5, 3]"
  using store_keeps_the_last_capacity_items [of 3 "[1, 2, 3, 4, 5 :: nat]" 2]
  by (simp add: store_extend_def store_add_def empty_store_def)

section \<open>Shapes through the encoder\<close>

text \<open>
  On a sample and on a batch the stack flattens what the blocks deliver, with or
  without blocks.
\<close>

lemma cnn_encoder_sample:
  "cnn_encoder blk ls [c, h, w] =
     (case apply_blocks blk ls (c, h, w) of
        None \<Rightarrow> Inl RuntimeError
      | Some (c', h', w') \<Rightarrow> Inr [c' * h' * w'])"
  by (cases ls)
     (auto simp: cnn_encoder_def blocks_forward_def squash_dims_def split: option.splits)

lemma cnn_encoder_batch:
  "cnn_encoder blk ls [n, c, h, w] =
     (case apply_blocks blk ls (c, h, w) of
        None \<Rightarrow> Inl RuntimeError
      | Some (c', h', w') \<Rightarrow> Inr [n, c' * h' * w'])"
  by (cases ls)
     (auto simp: cnn_encoder_def blocks_forward_def squash_dims_def split: option.splits)

text \<open>What a successful construction fixes, for a raster shape of three or four dimensions.\<close>

lemma init_succeeds:
  assumes "conv_encoder_init blk raster_shape cnn_channels kernel_sizes strides vec_dim vec_out
      = Inr (enc, probes)"
    and "raster_shape = [c, h, w] \<or> raster_shape = [n0, c, h, w]"
  shows "\<exists>c' h' w'.
     apply_blocks blk (layers enc) (c, h, w) = Some (c', h', w') \<and>
     cnn_encoder blk (layers enc) (dummy_inputs raster_shape)
       = Inr [hd (dummy_inputs raster_shape), c' * h' * w'] \<and>
     in_features enc = vec_dim + c' * h' * w' \<and>
     out_features enc = vec_out \<and>
     probes = [dummy_inputs raster_shape]"
proof -
  from assms(2) obtain in_ch rest where rs: "raster_shape = in_ch # rest" by auto
  from assms(1) rs obtain ls where bl: "build_layers in_ch cnn_channels kernel_sizes strides = Inr ls"
    by (cases "build_layers in_ch cnn_channels kernel_sizes strides")
       (simp_all add: conv_encoder_init_def)
  from assms(1) rs bl obtain out where
    cn: "cnn_encoder blk ls (dummy_inputs raster_shape) = Inr out"
    by (cases "cnn_encoder blk ls (dummy_inputs raster_shape)")
       (simp_all add: conv_encoder_init_def)
  from assms(1) rs bl cn have len: "\<not> length out < 2"
    and enc: "enc = \<lparr>layers = ls, in_features = vec_dim + out ! 1, out_features = vec_out\<rparr>"
    and pr: "probes = [dummy_inputs raster_shape]"
    by (simp_all add: conv_encoder_init_def split: if_splits)
  from assms(2) obtain n where d: "dummy_inputs raster_shape = [n, c, h, w]"
    by (auto simp: dummy_inputs_def)
  from cn d obtain c' h' w' where ab: "apply_blocks blk ls (c, h, w) = Some (c', h', w')"
    and out: "out = [n, c' * h' * w']"
    by (auto simp: cnn_encoder_batch split: option.splits)
  have "cnn_encoder blk ls (dummy_inputs raster_shape)
       = Inr [hd (dummy_inputs raster_shape), c' * h' * w']"
    using cn out d by simp
  with ab out enc pr show ?thesis by auto
qed

lemma forward_unbatched:
  assumes "apply_blocks blk (layers enc) (c, h, w) = Some (c', h', w')"
    and "in_features enc = vec_dim + c' * h' * w'"
  shows "forward blk enc [c, h, w] (Some [vec_dim]) = Inr [out_features enc]"
  using assms
  by (simp add: forward_def concatenate_last_def post_encoder_def cnn_encoder_sample cnn_encoder_batch)

lemma forward_batched:
  assumes "apply_blocks blk (layers enc) (c, h, w) = Some (c', h', w')"
    and "in_features enc = vec_dim + c' * h' * w'"
  shows "forward blk enc [n, c, h, w] (Some [n, vec_dim]) = Inr [n, out_features enc]"
  using assms
  by (simp add: forward_def concatenate_last_def post_encoder_def cnn_encoder_sample cnn_encoder_batch)

lemma forward_none:
  assumes "apply_blocks blk (layers enc) (c, h, w) = Some (c', h', w')"
    and "in_features enc = vec_dim + c' * h' * w'"
  shows "forward blk enc [c, h, w] None =
           (if 0 < vec_dim then Inl RuntimeError else Inr [out_features enc])"
    and "forward blk enc [n, c, h, w] None =
           (if 0 < vec_dim then Inl RuntimeError else Inr [n, out_features enc])"
  using assms by (simp_all add: forward_def post_encoder_def cnn_encoder_sample cnn_encoder_batch)

text \<open>
  Claim C9. Let \<open>ConvEncoder(raster_shape, ...)\<close> be constructed for a raster shape
  \<open>(C, H, W)\<close> or \<open>(N, C, H, W)\<close>. The constructor calls the convolutional stack
  exactly once, on a dummy input of the raster shape (a leading dimension 1 added when
  the shape has fewer than four dimensions); the input dimension of the projection
  layer is \<open>vec_dim\<close> plus the flattened size \<open>f\<close> of that call's output; and for
  every raster input of the declared channels, height and width, a single sample with a
  vector of length \<open>vec_dim\<close> or a batch of \<open>n\<close> samples with \<open>n\<close> such vectors,
  \<open>forward\<close> returns an embedding of dimension \<open>vec_out\<close>. This holds for every
  convolutional block \<open>blk\<close>.
\<close>

theorem conv_encoder_output_dimension:
  assumes "conv_encoder_init blk raster_shape cnn_channels kernel_sizes strides vec_dim vec_out
      = Inr (enc, probes)"
    and "raster_shape = [c, h, w] \<or> raster_shape = [n0, c, h, w]"
  shows "probes = [dummy_inputs raster_shape] \<and>
     (\<exists>f. cnn_encoder blk (layers enc) (dummy_inputs raster_shape)
            = Inr [hd (dummy_inputs raster_shape), f] \<and>
          in_features enc = vec_dim + f) \<and>
     forward blk enc [c, h, w] (Some [vec_dim]) = Inr [vec_out] \<and>
     (\<forall>n. forward blk enc [n, c, h, w] (Some [n, vec_dim]) = Inr [n, vec_out])"
proof -
  from init_succeeds [OF assms] obtain c' h' w' where
    ab: "apply_blocks blk (layers enc) (c, h, w) = Some (c', h', w')"
    and d: "cnn_encoder blk (layers enc) (dummy_inputs raster_shape)
       = Inr [hd (dummy_inputs raster_shape), c' * h' * w']"
    and inf: "in_features enc = vec_dim + c' * h' * w'"
    and outf: "out_features enc = vec_out"
    and pr: "probes = [dummy_inputs raster_shape]"
    by blast
  have u: "forward blk enc [c, h, w] (Some [vec_dim]) = Inr [vec_out]"
    using forward_unbatched [OF ab inf] outf by simp
  have b: "\<forall>n. forward blk enc [n, c, h, w] (Some [n, vec_dim]) = Inr [n, vec_out]"
    using forward_batched [OF ab inf] outf by simp
  from pr d inf u b show ?thesis by blast
qed

text \<open>
  The theorem for rasters of 4 channels and 20 by 20 cells, the default channels, kernel
  sizes and strides, \<open>vec_dim = 14\<close> and \<open>vec_out = 256\<close>: the stack flattens a
  sample to \<open>64 * 8 * 8 = 4096\<close> features.
\<close>

theorem conv_encoder_output_dimension_witness:
  "forward plain_conv
     \<lparr>layers = [(4, 16, 8, 1), (16, 32, 4, 1), (32, 64, 3, 1)],
      in_features = 4110, out_features = 256\<rparr>
     [5, 4, 20, 20] (Some [5, 14]) = Inr [5, 256]"
proof -
  have i: "conv_encoder_init plain_conv [4, 20, 20] [16, 32, 64] [8, 4, 3] [1, 1, 1] 14 256 =
      Inr (\<lparr>layers = [(4, 16, 8, 1), (16, 32, 4, 1), (32, 64, 3, 1)],
             in_features = 4110, out_features = 256\<rparr>, [[1, 4, 20, 20]])"
    by (simp add: conv_encoder_init_def dummy_inputs_def plain_conv_def cnn_encoder_batch)
  have r: "[4, 20, 20] = [4, 20, 20] \<or> [4, 20, 20] = [0, 4, 20, (20::nat)]" by simp
  from conv_encoder_output_dimension [OF i r] show ?thesis by simp
qed

text \<open>
  Claim C10. For a constructed encoder and a raster input of the declared channels,
  height and width (a single sample or a batch), \<open>forward\<close> with \<open>vector=None\<close>
  fails when \<open>vec_dim > 0\<close>: the projection layer wants \<open>vec_dim\<close> more features
  than the convolutional stack delivers. With \<open>vec_dim = 0\<close> the call returns an
  embedding of dimension \<open>vec_out\<close>: only then can the vector be left out.
\<close>

theorem forward_needs_the_vector:
  assumes "conv_encoder_init blk raster_shape cnn_channels kernel_sizes strides vec_dim vec_out
      = Inr (enc, probes)"
    and "raster_shape = [c, h, w] \<or> raster_shape = [n0, c, h, w]"
  shows "if 0 < vec_dim
         then forward blk enc [c, h, w] None = Inl RuntimeError \<and>
              (\<forall>n. forward blk enc [n, c, h, w] None = Inl RuntimeError)
         else forward blk enc [c, h, w] None = Inr [vec_out] \<and>
              (\<forall>n. forward blk enc [n, c, h, w] None = Inr [n, vec_out])"
proof -
  from init_succeeds [OF assms] obtain c' h' w' where
    ab: "apply_blocks blk (layers enc) (c, h, w) = Some (c', h', w')"
    and inf: "in_features enc = vec_dim + c' * h' * w'"
    and outf: "out_features enc = vec_out"
    by blast
  show ?thesis
    using forward_none [OF ab inf] outf by simp
qed

text \<open>The theorem for the same rasters, with \<open>vec_dim = 14\<close> and with \<open>vec_dim = 0\<close>.\<close>

theorem forward_needs_the_vector_witness:
  "forward plain_conv
     \<lparr>layers = [(4, 16, 8, 1), (16, 32, 4, 1), (32, 64, 3, 1)],
      in_features = 4110, out_features = 256\<rparr>
     [5, 4, 20, 20] None = Inl RuntimeError \<and>
   forward plain_conv
     \<lparr>layers = [(4, 16, 8, 1), (16, 32, 4, 1), (32, 64, 3, 1)],
      in_features = 4096, out_features = 256\<rparr>
     [5, 4, 20, 20] None = Inr [5, 256]"
proof -
  have i: "conv_encoder_init plain_conv [4, 20, 20] [16, 32, 64] [8, 4, 3] [1, 1, 1] 14 256 =
      Inr (\<lparr>layers = [(4, 16, 8, 1), (16, 32, 4, 1), (32, 64, 3, 1)],
             in_features = 4110, out_features = 256\<rparr>, [[1, 4, 20, 20]])"
    by (simp add: conv_encoder_init_def dummy_inputs_def plain_conv_def cnn_encoder_batch)
  have j: "conv_encoder_init plain_conv [4, 20, 20] [16, 32, 64] [8, 4, 3] [1, 1, 1] 0 256 =
      Inr (\<lparr>layers = [(4, 16, 8, 1), (16, 32, 4, 1), (32, 64, 3, 1)],
             in_features = 4096, out_features = 256\<rparr>, [[1, 4, 20, 20]])"
    by (simp add: conv_encoder_init_def dummy_inputs_def plain_conv_def cnn_encoder_batch)
  have r: "[4, 20, 20] = [4, 20, 20] \<or> [4, 20, 20] = [0, 4, 20, (20::nat)]" by simp
  from forward_needs_the_vector [OF i r] forward_needs_the_vector [OF j r]
  show ?thesis by simp
qed

end
